(* ===== verification/Prelude.thy ===== *)
theory Prelude
  imports Main
begin

text \<open>
  Shared vocabulary of the development of \<^verbatim>\<open>src/src/App.js\<close>: the type of a
  reducer, JavaScript errors and the completion of a call (it returns or throws), the
  collection \<open>js_eval\<close> of equations that evaluate the JavaScript-level
  operations on concrete values (used by the witnesses), and the list lemmas for the
  identity filter \<^verbatim>\<open>listeners.filter(l => l !== listener)\<close> with which the store
  removes a listener.
\<close>

named_theorems js_eval "equations that evaluate the JavaScript-level operations on literals"

type_synonym ('s, 'a) reducer_fn = "'s \<Rightarrow> 'a \<Rightarrow> 's"

subsection \<open>Exceptions and completions\<close>

text \<open>
  A thrown JavaScript error, by its constructor and message, and the completion of a
  call: it returns normally or throws, in both cases leaving the program in some state
  (a throw does not undo what ran before it).
\<close>

datatype js_error = TypeError string | Error string

datatype 'c completion = Returned 'c | Threw js_error 'c

primrec completion_state :: "'c completion \<Rightarrow> 'c" where
  "completion_state (Returned c) = c"
| "completion_state (Threw e c) = c"

subsection \<open>Removing every occurrence of a reference from a list\<close>

text \<open>
  JavaScript compares functions by reference (\<^verbatim>\<open>!==\<close>), so the filter drops every
  occurrence of the listener, not only the one its own \<^verbatim>\<open>subscribe\<close> call added.
\<close>

lemma filter_neq_not_member [simp]: "x \<notin> set (filter (\<lambda>y. y \<noteq> x) xs)"
  by simp

lemma filter_neq_idem [simp]:
  "filter (\<lambda>y. y \<noteq> x) (filter (\<lambda>y. y \<noteq> x) xs) = filter (\<lambda>y. y \<noteq> x) xs"
  by (simp add: conj_absorb)

lemma filter_neq_fresh [simp]: "x \<notin> set xs \<Longrightarrow> filter (\<lambda>y. y \<noteq> x) xs = xs"
  by (induction xs) auto

lemma count_filter_neq [simp]:
  "count_list (filter (\<lambda>y. y \<noteq> x) xs) z = (if z = x then 0 else count_list xs z)"
  by (induction xs) auto

end
