(* ===== verification/JsNumber.thy ===== *)
theory JsNumber
  imports Prelude
begin

text \<open>
  JavaScript numbers on integer values. \<^verbatim>\<open>state.count + 1\<close> and
  \<^verbatim>\<open>state.count - 1\<close> in \<^verbatim>\<open>reducer\<close> (\<^verbatim>\<open>src/src/App.js\<close>, lines 14 and 16) are
  IEEE-754 double additions: the exact sum, rounded to the nearest double, ties to an
  even significand. On integers a double has a 53-bit significand, so an integer
  \<open>m\<close> with \<open>2^(52+s) \<le> m < 2^(53+s)\<close> is rounded to a multiple of \<open>2^s\<close>.
  \<open>excess_bits m\<close> is that \<open>s\<close>, \<open>round_to_ulp\<close> the rounding of the
  magnitude, \<open>dbl_round\<close> the rounding of a signed integer and \<open>js_add\<close>,
  \<open>js_sub\<close> the two operators. Values beyond the largest double \<open>MAX_VALUE\<close>
  (which JavaScript makes \<^verbatim>\<open>Infinity\<close>) are not represented; the theory proves
  that rounding gives a nearest double, and from it that \<open>\<plusminus>1\<close> never carries a
  double past \<open>max |x| 2^54\<close>.
\<close>

function excess_bits :: "nat \<Rightarrow> nat" where
  "excess_bits m = (if m < 2 ^ 53 then 0 else Suc (excess_bits (m div 2)))"
  by pat_completeness auto
termination
  by (relation "measure id") auto

declare excess_bits.simps [simp del]

definition round_to_ulp :: "nat \<Rightarrow> nat \<Rightarrow> nat" where
  "round_to_ulp s m =
     (let q = m div 2 ^ s; r = m mod 2 ^ s
      in if 2 * r > 2 ^ s \<or> (2 * r = 2 ^ s \<and> odd q) then (q + 1) * 2 ^ s else q * 2 ^ s)"

definition dbl_round :: "int \<Rightarrow> int" where
  "dbl_round n = sgn n * int (round_to_ulp (excess_bits (nat \<bar>n\<bar>)) (nat \<bar>n\<bar>))"

definition js_add :: "int \<Rightarrow> int \<Rightarrow> int" where
  "js_add a b = dbl_round (a + b)"

definition js_sub :: "int \<Rightarrow> int \<Rightarrow> int" where
  "js_sub a b = dbl_round (a - b)"

text \<open>
  The binary64 format stores a finite value as a 53-bit significand times a power of
  two. An integer is such a value exactly when its odd part (the integer with every
  factor 2 removed) is below \<open>2^53\<close>; it is a finite one when moreover its magnitude
  is at most \<open>MAX_VALUE\<close>. This characterisation does not mention rounding.
\<close>

function odd_part :: "nat \<Rightarrow> nat" where
  "odd_part m = (if m = 0 \<or> odd m then m else odd_part (m div 2))"
  by pat_completeness auto
termination
  by (relation "measure id") auto

declare odd_part.simps [simp del]

definition is_double :: "int \<Rightarrow> bool" where
  "is_double n \<longleftrightarrow> odd_part (nat \<bar>n\<bar>) < 2 ^ 53"

text \<open>
  \<^verbatim>\<open>Number.MAX_VALUE\<close>, the largest finite double; an exact sum that rounds
  beyond it becomes \<^verbatim>\<open>Infinity\<close>.
\<close>

definition MAX_VALUE :: int where
  "MAX_VALUE = (2 ^ 53 - 1) * 2 ^ 971"

declare excess_bits.simps [js_eval] round_to_ulp_def [js_eval] dbl_round_def [js_eval]
  js_add_def [js_eval] js_sub_def [js_eval]

subsection \<open>Integers up to \<open>2^53\<close> are exact\<close>

lemma excess_bits_small: "m < 2 ^ 53 \<Longrightarrow> excess_bits m = 0"
  by (simp add: excess_bits.simps)

lemma round_to_ulp_0 [simp]: "round_to_ulp 0 m = m"
  by (simp add: round_to_ulp_def)

lemma excess_bits_2p53: "excess_bits (2 ^ 53) = 1"
  by (simp add: excess_bits.simps)

lemma round_to_ulp_2p53: "round_to_ulp 1 (2 ^ 53) = 2 ^ 53"
  by (simp add: round_to_ulp_def)

lemma dbl_round_exact:
  assumes "\<bar>n\<bar> \<le> 2 ^ 53"
  shows "dbl_round n = n"
proof (cases "\<bar>n\<bar> = 2 ^ 53")
  case True
  then have "nat \<bar>n\<bar> = 2 ^ 53" by simp
  then have "round_to_ulp (excess_bits (nat \<bar>n\<bar>)) (nat \<bar>n\<bar>) = nat \<bar>n\<bar>"
    by (simp only: excess_bits_2p53 round_to_ulp_2p53)
  then show ?thesis by (simp add: dbl_round_def sgn_mult_abs)
next
  case False
  with assms have "nat \<bar>n\<bar> < 2 ^ 53" by simp
  then show ?thesis by (simp add: dbl_round_def excess_bits_small sgn_mult_abs)
qed

lemma js_add_exact: "\<bar>a + b\<bar> \<le> 2 ^ 53 \<Longrightarrow> js_add a b = a + b"
  by (simp add: js_add_def dbl_round_exact)

lemma js_sub_exact: "\<bar>a - b\<bar> \<le> 2 ^ 53 \<Longrightarrow> js_sub a b = a - b"
  by (simp add: js_sub_def dbl_round_exact)

subsection \<open>At \<open>2^53\<close> adding one is lost\<close>

lemma dbl_round_2p53_succ: "dbl_round (2 ^ 53 + 1) = 2 ^ 53"
  by (simp add: js_eval)

lemma dbl_round_2p53_succ_neg: "dbl_round (- (2 ^ 53 + 1)) = - (2 ^ 53)"
  by (simp add: js_eval)

subsection \<open>Rounding is idempotent\<close>

text \<open>
  \<open>excess_bits m\<close> is the least \<open>s\<close> with \<open>m < 2^(53+s)\<close>; the rounded
  magnitude is \<open>q' * 2^s\<close> with \<open>2^52 \<le> q' \<le> 2^53\<close>, which rounds to itself.
  Hence every result of \<open>js_add\<close> and \<open>js_sub\<close> is a double.
\<close>

lemma excess_bits_bounds:
  "m < 2 ^ (53 + excess_bits m) \<and> (0 < excess_bits m \<longrightarrow> 2 ^ (52 + excess_bits m) \<le> m)"
proof (induction m rule: excess_bits.induct)
  case (1 m)
  show ?case
  proof (cases "m < 2 ^ 53")
    case True
    then show ?thesis by (simp add: excess_bits_small)
  next
    case False
    define e where "e = excess_bits (m div 2)"
    then have ex: "excess_bits m = Suc e"
      using False by (simp add: excess_bits.simps)
    from "1.IH" False have ih: "m div 2 < 2 ^ (53 + e)" "0 < e \<longrightarrow> 2 ^ (52 + e) \<le> m div 2"
      by (simp_all add: e_def)
    from ih(1) have up: "m < 2 ^ (53 + Suc e)"
      by (simp add: power_add)
    have "2 ^ (52 + Suc e) \<le> m"
    proof (cases "e = 0")
      case True
      with False show ?thesis by simp
    next
      case False
      with ih(2) have "2 ^ (52 + e) \<le> m div 2" by simp
      then show ?thesis by (simp add: power_add)
    qed
    with up ex show ?thesis by simp
  qed
qed

lemma excess_bits_eqI:
  "m < 2 ^ (53 + s) \<Longrightarrow> (0 < s \<Longrightarrow> 2 ^ (52 + s) \<le> m) \<Longrightarrow> excess_bits m = s"
proof (induction s arbitrary: m)
  case 0
  then show ?case by (simp add: excess_bits_small)
next
  case (Suc t)
  have low: "2 ^ (53 + t) \<le> m" using Suc.prems(2) by simp
  have "(2::nat) ^ 53 \<le> 2 ^ (53 + t)"
    by (rule power_increasing) simp_all
  with low have "\<not> m < 2 ^ 53"
    by linarith
  then have e: "excess_bits m = Suc (excess_bits (m div 2))"
    by (simp add: excess_bits.simps)
  have "m div 2 < 2 ^ (53 + t)" using Suc.prems(1)
    by (simp add: power_add)
  moreover have "0 < t \<Longrightarrow> 2 ^ (52 + t) \<le> m div 2" using low
    by (simp add: power_add)
  ultimately have "excess_bits (m div 2) = t" by (rule Suc.IH)
  with e show ?case by simp
qed

lemma round_to_ulp_mult [simp]: "round_to_ulp t (k * 2 ^ t) = k * 2 ^ t"
  by (simp add: round_to_ulp_def)

lemma round_to_ulp_form:
  obtains q' where "round_to_ulp s m = q' * 2 ^ s" "m div 2 ^ s \<le> q'" "q' \<le> m div 2 ^ s + 1"
proof -
  let ?q = "m div 2 ^ s"
  have "round_to_ulp s m = ?q * 2 ^ s \<or> round_to_ulp s m = (?q + 1) * 2 ^ s"
    by (simp add: round_to_ulp_def Let_def)
  then show ?thesis using that by fastforce
qed

lemma excess_range:
  assumes "0 < excess_bits m"
  shows "2 ^ 52 \<le> m div 2 ^ excess_bits m" and "m div 2 ^ excess_bits m < 2 ^ 53"
proof -
  let ?s = "excess_bits m"
  from excess_bits_bounds [of m] assms
  have lo: "2 ^ 52 * 2 ^ ?s \<le> m" and hi: "m < 2 ^ 53 * 2 ^ ?s"
    by (simp_all add: power_add)
  from lo have "2 ^ 52 * 2 ^ ?s div 2 ^ ?s \<le> m div 2 ^ ?s" by (rule div_le_mono)
  then show "2 ^ 52 \<le> m div 2 ^ ?s" by simp
  from hi show "m div 2 ^ ?s < 2 ^ 53" by (simp add: less_mult_imp_div_less)
qed

lemma round_to_ulp_idem:
  fixes m :: nat
  defines "R \<equiv> round_to_ulp (excess_bits m) m"
  shows "round_to_ulp (excess_bits R) R = R"
proof (cases "excess_bits m = 0")
  case True
  then show ?thesis by (simp add: R_def)
next
  case False
  define s where "s = excess_bits m"
  obtain q' where R: "R = q' * 2 ^ s" and lo: "m div 2 ^ s \<le> q'" and hi: "q' \<le> m div 2 ^ s + 1"
    using round_to_ulp_form [of s m] by (metis R_def s_def)
  from False excess_range have "2 ^ 52 \<le> m div 2 ^ s" "m div 2 ^ s < 2 ^ 53"
    by (simp_all add: s_def)
  with lo hi have q_lo: "2 ^ 52 \<le> q'" and q_hi: "q' \<le> 2 ^ 53" by simp_all
  show ?thesis
  proof (cases "q' = 2 ^ 53")
    case True
    then have R': "R = 2 ^ 52 * 2 ^ Suc s" by (simp add: R)
    have "excess_bits R = Suc s"
      by (rule excess_bits_eqI) (simp_all add: R' power_add)
    then have "round_to_ulp (excess_bits R) R = round_to_ulp (Suc s) R" by simp
    also have "\<dots> = R" unfolding R' by (rule round_to_ulp_mult)
    finally show ?thesis .
  next
    case False
    with q_hi have "q' < 2 ^ 53" by simp
    then have "q' * 2 ^ s < 2 ^ 53 * 2 ^ s" by simp
    moreover from q_lo have "2 ^ 52 * 2 ^ s \<le> q' * 2 ^ s" by simp
    ultimately have "excess_bits R = s"
      by (intro excess_bits_eqI) (simp_all add: R power_add)
    with R show ?thesis by simp
  qed
qed

lemma round_to_ulp_pos: "0 < m \<Longrightarrow> 0 < round_to_ulp (excess_bits m) m"
proof (cases "excess_bits m = 0")
  case True
  then show "0 < m \<Longrightarrow> ?thesis" by simp
next
  case False
  obtain q' where R: "round_to_ulp (excess_bits m) m = q' * 2 ^ excess_bits m"
    and lo: "m div 2 ^ excess_bits m \<le> q'"
    using round_to_ulp_form by blast
  from False have "2 ^ 52 \<le> m div 2 ^ excess_bits m" using excess_range(1) [of m] by simp
  with lo have "2 ^ 52 \<le> q'" by linarith
  with R show ?thesis by simp
qed

lemma dbl_round_idem: "dbl_round (dbl_round n) = dbl_round n"
proof (cases "n = 0")
  case True
  then show ?thesis by (simp add: dbl_round_def)
next
  case False
  define R where "R = round_to_ulp (excess_bits (nat \<bar>n\<bar>)) (nat \<bar>n\<bar>)"
  from False have "0 < R" unfolding R_def by (intro round_to_ulp_pos) simp
  then have abs_eq: "nat \<bar>dbl_round n\<bar> = R" and sgn_eq: "sgn (dbl_round n) = sgn n"
    using False by (auto simp: dbl_round_def R_def abs_mult sgn_mult)
  have idem: "round_to_ulp (excess_bits R) R = R"
    unfolding R_def by (rule round_to_ulp_idem)
  have "dbl_round (dbl_round n) = sgn n * int (round_to_ulp (excess_bits R) R)"
    by (simp only: dbl_round_def [of "dbl_round n"] abs_eq sgn_eq)
  also have "\<dots> = sgn n * int R"
    by (simp only: idem)
  also have "\<dots> = dbl_round n"
    by (simp add: dbl_round_def R_def)
  finally show ?thesis .
qed


subsection \<open>Doubles are exactly the values rounding leaves unchanged\<close>

lemma round_to_ulp_dvd: "round_to_ulp s m = m \<Longrightarrow> 2 ^ s dvd m"
  by (metis dvd_triv_right round_to_ulp_form)


lemma odd_part_double: "odd_part (2 * k) = odd_part k"
proof (cases "k = 0")
  case True
  then show ?thesis by (simp add: odd_part.simps)
next
  case False
  then show ?thesis by (subst odd_part.simps) simp
qed

lemma odd_part_pow2_mult [simp]: "odd_part (k * 2 ^ t) = odd_part k"
proof (induction t)
  case 0
  then show ?case by simp
next
  case (Suc t)
  have "k * 2 ^ Suc t = 2 * (k * 2 ^ t)" by simp
  then show ?case by (simp only: odd_part_double Suc.IH)
qed

lemma odd_part_decomp: "\<exists>t. m = odd_part m * 2 ^ t"
proof (induction m rule: odd_part.induct)
  case (1 m)
  show ?case
  proof (cases "m = 0 \<or> odd m")
    case True
    then have "m = odd_part m * 2 ^ 0" by (simp add: odd_part.simps)
    then show ?thesis ..
  next
    case False
    then obtain t where t: "m div 2 = odd_part (m div 2) * 2 ^ t" using "1.IH" by blast
    from False have "odd_part m = odd_part (m div 2)" by (subst odd_part.simps) simp
    from False have "m = 2 * (m div 2)" by simp
    with t \<open>odd_part m = odd_part (m div 2)\<close> have "m = odd_part m * 2 ^ Suc t" by simp
    then show ?thesis ..
  qed
qed

lemma odd_part_le: "odd_part m \<le> m"
  by (induction m rule: odd_part.induct) (subst odd_part.simps, auto)

lemma round_to_ulp_fixed_iff: "round_to_ulp (excess_bits m) m = m \<longleftrightarrow> odd_part m < 2 ^ 53"
proof
  assume fixed: "round_to_ulp (excess_bits m) m = m"
  define s where "s = excess_bits m"
  show "odd_part m < 2 ^ 53"
  proof (cases "s = 0")
    case True
    then have "m < 2 ^ 53" using excess_bits_bounds [of m] by (simp add: s_def)
    then show ?thesis using odd_part_le [of m] by linarith
  next
    case False
    have "2 ^ s dvd m" using fixed by (simp add: round_to_ulp_dvd s_def)
    then have m: "m = m div 2 ^ s * 2 ^ s" by simp
    have "m div 2 ^ s < 2 ^ 53" using excess_range(2) [of m] False by (simp add: s_def)
    moreover have "odd_part m = odd_part (m div 2 ^ s)" by (subst m) (rule odd_part_pow2_mult)
    ultimately show ?thesis using odd_part_le [of "m div 2 ^ s"] by linarith
  qed
next
  assume small: "odd_part m < 2 ^ 53"
  define s where "s = excess_bits m"
  obtain t where t: "m = odd_part m * 2 ^ t" using odd_part_decomp by blast
  show "round_to_ulp (excess_bits m) m = m"
  proof (cases "s = 0")
    case True
    then show ?thesis by (simp add: s_def)
  next
    case False
    have "2 ^ (52 + s) \<le> m" using excess_bits_bounds [of m] False by (simp add: s_def)
    moreover have "m < 2 ^ 53 * 2 ^ t" using small t by (metis mult_less_cancel2 zero_less_power zero_less_numeral)
    ultimately have "(2::nat) ^ (52 + s) < 2 ^ (53 + t)" by (simp add: power_add)
    then have "s \<le> t" by (simp add: power_strict_increasing_iff)
    then have "m = (odd_part m * 2 ^ (t - s)) * 2 ^ s" using t by (simp add: mult.assoc flip: power_add)
    then show ?thesis unfolding s_def [symmetric] by (metis round_to_ulp_mult)
  qed
qed

lemma is_double_iff_dbl_round: "is_double n \<longleftrightarrow> dbl_round n = n"
proof
  assume "is_double n"
  then have "round_to_ulp (excess_bits (nat \<bar>n\<bar>)) (nat \<bar>n\<bar>) = nat \<bar>n\<bar>"
    by (simp add: is_double_def round_to_ulp_fixed_iff)
  then show "dbl_round n = n" by (simp add: dbl_round_def sgn_mult_abs)
next
  assume eq: "dbl_round n = n"
  have "round_to_ulp (excess_bits (nat \<bar>n\<bar>)) (nat \<bar>n\<bar>) = nat \<bar>n\<bar>"
  proof (cases "n = 0")
    case True
    then show ?thesis by (simp add: excess_bits_small)
  next
    case False
    from eq have "\<bar>sgn n * int (round_to_ulp (excess_bits (nat \<bar>n\<bar>)) (nat \<bar>n\<bar>))\<bar> = \<bar>n\<bar>"
      by (simp add: dbl_round_def)
    with False show ?thesis by (simp add: abs_mult, metis nat_int)
  qed
  then show "is_double n" by (simp add: is_double_def round_to_ulp_fixed_iff)
qed

declare is_double_iff_dbl_round [js_eval]

lemma is_double_dbl_round [simp]: "is_double (dbl_round n)"
  by (simp add: is_double_iff_dbl_round dbl_round_idem)

lemma is_double_js_add [simp]: "is_double (js_add a b)"
  by (simp add: js_add_def)

lemma is_double_js_sub [simp]: "is_double (js_sub a b)"
  by (simp add: js_sub_def)

lemma is_double_MAX_VALUE: "is_double MAX_VALUE"
proof -
  have eq: "nat \<bar>MAX_VALUE\<bar> = (2 ^ 53 - 1) * 2 ^ 971" by (simp add: MAX_VALUE_def)
  have "odd_part (nat \<bar>MAX_VALUE\<bar>) = odd_part ((2 ^ 53 - 1) * 2 ^ 971)" by (simp only: eq)
  also have "\<dots> = odd_part (2 ^ 53 - 1)" by (rule odd_part_pow2_mult)
  also have "\<dots> = 2 ^ 53 - 1" by (simp add: odd_part.simps)
  finally show ?thesis by (simp add: is_double_def)
qed


subsection \<open>Rounding gives a nearest double\<close>

text \<open>
  Between two consecutive multiples of the unit in the last place there is no double, so
  the rounded value is at least as close to the exact sum as any double. Consequences:
  a double bound on the exact value bounds the rounded one, doubles beyond
  \<open>2^54\<close> are multiples of 4, and there \<open>\<plusminus>1\<close> is absorbed.
\<close>

lemma no_double_between:
  assumes d: "round_to_ulp (excess_bits d) d = d"
    and lo: "2 ^ 52 \<le> q" and hi: "q < 2 ^ 53"
    and between: "q * 2 ^ s < d" "d < (q + 1) * 2 ^ s"
  shows False
proof -
  have "(q + 1) * 2 ^ s \<le> 2 ^ 53 * 2 ^ s" using hi by simp
  with between have "d < 2 ^ 53 * 2 ^ s" by linarith
  then have d_hi: "d < 2 ^ (53 + s)" by (simp add: power_add)
  have "2 ^ 52 * 2 ^ s \<le> q * 2 ^ s" using lo by simp
  with between have "2 ^ 52 * 2 ^ s \<le> d" by linarith
  then have d_lo: "2 ^ (52 + s) \<le> d" by (simp add: power_add)
  from d_hi d_lo have "excess_bits d = s" by (rule excess_bits_eqI)
  with d have "2 ^ s dvd d" by (metis round_to_ulp_dvd)
  then obtain k where k: "d = k * 2 ^ s" by (metis dvd_def mult.commute)
  with between have "q * 2 ^ s < k * 2 ^ s" "k * 2 ^ s < (q + 1) * 2 ^ s" by simp_all
  then have "q < k" "k < q + 1" by (meson mult_less_cancel2)+
  then show False by simp
qed

lemma round_to_ulp_near:
  fixes m d :: nat
  assumes d: "round_to_ulp (excess_bits d) d = d"
  shows "\<bar>int (round_to_ulp (excess_bits m) m) - int m\<bar> \<le> \<bar>int d - int m\<bar>"
proof (cases "excess_bits m = 0")
  case True
  then show ?thesis by simp
next
  case False
  define s where "s = excess_bits m"
  define q where "q = m div 2 ^ s"
  define r where "r = m mod 2 ^ s"
  have m: "m = q * 2 ^ s + r" unfolding q_def r_def by (rule div_mult_mod_eq [symmetric])
  have r_lt: "r < 2 ^ s" by (simp add: r_def)
  have q_lo: "2 ^ 52 \<le> q" and q_hi: "q < 2 ^ 53"
    using excess_range [of m] False by (simp_all add: q_def s_def)
  have R: "round_to_ulp s m = (if 2 * r > 2 ^ s \<or> (2 * r = 2 ^ s \<and> odd q) then (q + 1) * 2 ^ s else q * 2 ^ s)"
    by (simp add: round_to_ulp_def q_def r_def Let_def)
  have mi: "int m = int q * 2 ^ s + int r" using m by simp
  have "(round_to_ulp s m = q * 2 ^ s \<and> 2 * r \<le> 2 ^ s)
      \<or> (round_to_ulp s m = (q + 1) * 2 ^ s \<and> 2 ^ s \<le> 2 * r)"
    using R by auto
  then have near_lo: "\<bar>int (round_to_ulp s m) - int m\<bar> \<le> int r"
    and near_hi: "\<bar>int (round_to_ulp s m) - int m\<bar> \<le> int (2 ^ s) - int r"
  proof -
    have c: "2 * r \<le> 2 ^ s \<longleftrightarrow> 2 * int r \<le> 2 ^ s" "2 ^ s \<le> 2 * r \<longleftrightarrow> 2 ^ s \<le> 2 * int r"
      by (metis of_nat_le_iff of_nat_mult of_nat_numeral of_nat_power)+
    have ri: "int r < 2 ^ s" using r_lt by (metis of_nat_less_iff of_nat_numeral of_nat_power)
    show "\<bar>int (round_to_ulp s m) - int m\<bar> \<le> int r"
      "\<bar>int (round_to_ulp s m) - int m\<bar> \<le> int (2 ^ s) - int r"
      using \<open>_ \<or> _\<close> ri unfolding c by (auto simp: mi algebra_simps)
  qed
  have "d \<le> q * 2 ^ s \<or> (q + 1) * 2 ^ s \<le> d"
    using no_double_between [OF d q_lo q_hi] by (meson not_le)
  then have "int d \<le> int (q * 2 ^ s) \<or> int ((q + 1) * 2 ^ s) \<le> int d"
    by (simp only: of_nat_le_iff)
  then have "int r \<le> \<bar>int d - int m\<bar> \<or> int (2 ^ s) - int r \<le> \<bar>int d - int m\<bar>"
    by (auto simp: mi algebra_simps)
  with near_lo near_hi show ?thesis
    by (auto simp: s_def)
qed


lemma dbl_round_uminus: "dbl_round (- n) = - dbl_round n"
  by (simp add: dbl_round_def)

lemma is_double_uminus [simp]: "is_double (- n) \<longleftrightarrow> is_double n"
  by (simp add: is_double_def)

lemma is_double_abs:
  "is_double d \<Longrightarrow> round_to_ulp (excess_bits (nat \<bar>d\<bar>)) (nat \<bar>d\<bar>) = nat \<bar>d\<bar>"
  by (simp add: is_double_def round_to_ulp_fixed_iff)

lemma dbl_round_nearest:
  assumes "is_double d"
  shows "\<bar>dbl_round n - n\<bar> \<le> \<bar>d - n\<bar>"
proof -
  define m where "m = nat \<bar>n\<bar>"
  define R where "R = round_to_ulp (excess_bits m) m"
  have "\<bar>dbl_round n - n\<bar> = \<bar>int R - int m\<bar>"
  proof (cases "n < 0")
    case True
    then show ?thesis by (simp add: dbl_round_def R_def m_def abs_minus_commute)
  next
    case False
    then show ?thesis by (cases "n = 0") (simp_all add: dbl_round_def R_def m_def excess_bits_small)
  qed
  also have "\<dots> \<le> \<bar>int (nat \<bar>d\<bar>) - int m\<bar>"
    unfolding R_def by (rule round_to_ulp_near [OF is_double_abs [OF assms]])
  also have "\<dots> \<le> \<bar>d - n\<bar>"
    by (simp add: m_def abs_triangle_ineq3)
  finally show ?thesis .
qed

lemma double_dvd:
  assumes "is_double d" and "2 ^ (52 + t) \<le> \<bar>d\<bar>"
  shows "2 ^ t dvd d"
proof -
  define m where "m = nat \<bar>d\<bar>"
  define s where "s = excess_bits m"
  have "m < 2 ^ (53 + s)" using excess_bits_bounds [of m] by (simp add: s_def)
  moreover have "2 ^ (52 + t) \<le> m" using assms(2) unfolding m_def
    by (simp add: le_nat_iff)
  ultimately have "(2::nat) ^ (52 + t) < 2 ^ (53 + s)" by linarith
  then have "t \<le> s" by (simp add: power_strict_increasing_iff)
  moreover have "2 ^ s dvd m"
    unfolding s_def m_def by (rule round_to_ulp_dvd [OF is_double_abs [OF assms(1)]])
  ultimately have "2 ^ t dvd m" by (meson dvd_trans le_imp_power_dvd)
  then have "int (2 ^ t) dvd int m" by (simp only: of_nat_dvd_iff)
  then show ?thesis by (simp add: m_def)
qed

lemma is_double_2p54: "is_double (2 ^ 54)"
  by (simp add: js_eval)

lemma dbl_round_le:
  assumes "is_double D" and "\<bar>n\<bar> \<le> D"
  shows "\<bar>dbl_round n\<bar> \<le> D"
proof (cases "0 \<le> n")
  case True
  have "\<bar>dbl_round n - n\<bar> \<le> \<bar>D - n\<bar>" using assms(1) by (rule dbl_round_nearest)
  with True assms(2) show ?thesis by arith
next
  case False
  have "is_double (- D)" using assms(1) by simp
  then have "\<bar>dbl_round n - n\<bar> \<le> \<bar>- D - n\<bar>" by (rule dbl_round_nearest)
  with False assms(2) show ?thesis by arith
qed

lemma dvd4_close: "(4::int) dvd a \<Longrightarrow> 4 dvd b \<Longrightarrow> b \<le> a \<Longrightarrow> a \<le> b + 2 \<Longrightarrow> a = b"
  by presburger

lemma js_add_one_far:
  assumes x: "is_double x" and far: "2 ^ 54 \<le> x \<or> x < - (2 ^ 54)"
  shows "js_add x 1 = x"
proof -
  let ?r = "js_add x 1"
  have near: "\<bar>?r - (x + 1)\<bar> \<le> \<bar>x - (x + 1)\<bar>"
    unfolding js_add_def using x by (rule dbl_round_nearest)
  then have r_lo: "x \<le> ?r" and r_hi: "?r \<le> x + 2" by arith+
  have "2 ^ (52 + 2) \<le> \<bar>x\<bar>" using far by auto
  with x have x4: "4 dvd x" using double_dvd [of x 2] by simp
  have "2 ^ (52 + 2) \<le> \<bar>?r\<bar>"
  proof (cases "2 ^ 54 \<le> x")
    case True
    with r_lo show ?thesis by simp
  next
    case False
    with far have "x < - (2 ^ 54)" by simp
    moreover have "(2::int) ^ 54 = 18014398509481984" by simp
    ultimately have "x \<le> - (2 ^ 54) - 4" using x4 by presburger
    with r_hi show ?thesis by simp
  qed
  then have "4 dvd ?r" using double_dvd [of ?r 2] by simp
  from this x4 r_lo r_hi show ?thesis by (rule dvd4_close)
qed

lemma js_sub_neg: "js_sub x 1 = - js_add (- x) 1"
  by (simp add: js_sub_def js_add_def flip: dbl_round_uminus)

lemma js_add_one_bound:
  assumes "is_double x"
  shows "\<bar>js_add x 1\<bar> \<le> max \<bar>x\<bar> (2 ^ 54)"
proof (cases "\<bar>x + 1\<bar> \<le> 2 ^ 54")
  case True
  then have "\<bar>js_add x 1\<bar> \<le> 2 ^ 54"
    unfolding js_add_def using is_double_2p54 dbl_round_le by blast
  then show ?thesis by simp
next
  case False
  then have "2 ^ 54 \<le> x \<or> x < - (2 ^ 54)" by arith
  with assms have "js_add x 1 = x" by (rule js_add_one_far)
  then show ?thesis by simp
qed

lemma js_sub_one_bound:
  assumes "is_double x"
  shows "\<bar>js_sub x 1\<bar> \<le> max \<bar>x\<bar> (2 ^ 54)"
  using js_add_one_bound [of "- x"] assms by (simp add: js_sub_neg)

subsection \<open>Properties of the arithmetic\<close>



end
