(* ===== verification/Reducer.thy ===== *)
theory Reducer
  imports JsNumber
begin

text \<open>
  The counter's reducer (\<^verbatim>\<open>src/src/App.js\<close>, lines 4--20): the state object
  \<^verbatim>\<open>{ count }\<close> as the record \<open>counter_state\<close>, an action \<^verbatim>\<open>{ type }\<close> as the
  record \<open>action\<close> (the type is a string; a missing or non-string type takes the
  \<^verbatim>\<open>default\<close> branch like any unrecognised string), the two action-type constants and
  the \<^verbatim>\<open>switch\<close> as \<open>reducer\<close>, with the double arithmetic of \<open>JsNumber\<close>.
  \<open>counter_spec\<close> is the contract of the spec (an unbounded integer counter);
  the lemmas show that the reducer implements it while the count stays within
  \<open>2^53\<close>, that the range \<open>\<bar>count\<bar> \<le> 2^53\<close> is an invariant, and that at its
  edge an increment is lost.
\<close>

record counter_state =
  count :: int

record action =
  action_type :: string

definition initialState :: counter_state where
  "initialState = \<lparr>count = 0\<rparr>"

definition INCREMENT :: string where
  "INCREMENT = ''INCREMENT''"

definition DECREMENT :: string where
  "DECREMENT = ''DECREMENT''"

definition reducer :: "(counter_state, action) reducer_fn" where
  "reducer state act =
     (if action_type act = INCREMENT then \<lparr>count = js_add (count state) 1\<rparr>
      else if action_type act = DECREMENT then \<lparr>count = js_sub (count state) 1\<rparr>
      else state)"

text \<open>The contract of the spec: an integer counter with no bounds.\<close>

definition counter_spec :: "int \<Rightarrow> action \<Rightarrow> int" where
  "counter_spec c act =
     (if action_type act = INCREMENT then c + 1
      else if action_type act = DECREMENT then c - 1
      else c)"

definition safe_count :: "counter_state \<Rightarrow> bool" where
  "safe_count s \<longleftrightarrow> \<bar>count s\<bar> \<le> 2 ^ 53"

definition reduce_all :: "counter_state \<Rightarrow> action list \<Rightarrow> counter_state" where
  "reduce_all s acts = fold (\<lambda>a s. reducer s a) acts s"

declare initialState_def [js_eval] INCREMENT_def [js_eval] DECREMENT_def [js_eval]
  reducer_def [js_eval] counter_spec_def [js_eval] reduce_all_def [js_eval]

lemma INCREMENT_neq_DECREMENT [simp]: "INCREMENT \<noteq> DECREMENT" "DECREMENT \<noteq> INCREMENT"
  by (simp_all add: INCREMENT_def DECREMENT_def)

lemma reducer_increment:
  "action_type a = INCREMENT \<Longrightarrow> reducer s a = \<lparr>count = js_add (count s) 1\<rparr>"
  by (simp add: reducer_def)

lemma reducer_decrement:
  "action_type a = DECREMENT \<Longrightarrow> reducer s a = \<lparr>count = js_sub (count s) 1\<rparr>"
  by (simp add: reducer_def)

lemma reducer_other:
  "action_type a \<noteq> INCREMENT \<Longrightarrow> action_type a \<noteq> DECREMENT \<Longrightarrow> reducer s a = s"
  by (simp add: reducer_def)

text \<open>One step of the reducer moves the count by at most one, exactly so inside the range.\<close>

lemma reducer_exact:
  "\<bar>count s\<bar> < 2 ^ 53 \<Longrightarrow> count (reducer s a) = counter_spec (count s) a"
  by (auto simp: reducer_def counter_spec_def js_add_exact js_sub_exact)

lemma js_add_one_edge: "js_add (2 ^ 53) 1 = 2 ^ 53"
  using dbl_round_2p53_succ by (simp add: js_add_def)

lemma js_sub_one_edge: "js_sub (- (2 ^ 53)) 1 = - (2 ^ 53)"
  using dbl_round_2p53_succ_neg by (simp add: js_sub_def)

lemmas js_edges = js_add_one_edge [simplified] js_sub_one_edge [simplified]

lemma reducer_step_bound:
  assumes "\<bar>count s\<bar> \<le> 2 ^ 53"
  shows "\<bar>count (reducer s a)\<bar> \<le> 2 ^ 53"
proof (cases "\<bar>count s\<bar> < 2 ^ 53")
  case True
  then show ?thesis
    by (auto simp: reducer_exact counter_spec_def abs_if split: if_splits)
next
  case False
  with assms have edge: "count s = 2 ^ 53 \<or> count s = - (2 ^ 53)" by auto
  then show ?thesis
    by (auto simp: reducer_def js_edges js_add_exact js_sub_exact)
qed

lemma reducer_is_double: "is_double (count s) \<Longrightarrow> is_double (count (reducer s a))"
  by (simp add: reducer_def)

lemma reducer_step_progress:
  assumes "\<bar>count s\<bar> < 2 ^ 53"
  shows "\<bar>count (reducer s a)\<bar> \<le> \<bar>count s\<bar> + 1"
  using assms by (auto simp: reducer_exact counter_spec_def)

lemma reducer_far_bound:
  "is_double (count s) \<Longrightarrow> \<bar>count (reducer s a)\<bar> \<le> max \<bar>count s\<bar> (2 ^ 54)"
  using js_add_one_bound [of "count s"] js_sub_one_bound [of "count s"] by (simp add: reducer_def)

lemma reduce_all_far_bound:
  "is_double (count s) \<Longrightarrow> \<bar>count (reduce_all s acts)\<bar> \<le> max \<bar>count s\<bar> (2 ^ 54)"
proof (induction acts arbitrary: s)
  case Nil
  then show ?case by (simp add: reduce_all_def)
next
  case (Cons a acts)
  have "\<bar>count (reduce_all (reducer s a) acts)\<bar> \<le> max \<bar>count (reducer s a)\<bar> (2 ^ 54)"
    using Cons.IH Cons.prems reducer_is_double by blast
  moreover have "\<bar>count (reducer s a)\<bar> \<le> max \<bar>count s\<bar> (2 ^ 54)"
    using Cons.prems by (rule reducer_far_bound)
  ultimately show ?case by (simp add: reduce_all_def)
qed

lemma MAX_VALUE_above_2p54: "2 ^ 54 \<le> MAX_VALUE"
  by (simp add: MAX_VALUE_def)

subsection \<open>Properties of the reducer\<close>

text \<open>
  C3. Refinement: as long as the count cannot leave the range of exactly represented
  integers (its magnitude plus the number of actions is at most \<open>2^53\<close>), running the
  reducer over any sequence of actions gives the count the unbounded integer counter of
  the spec gives.
\<close>

theorem reduce_all_refines_counter_spec:
  "\<bar>count s\<bar> + int (length acts) \<le> 2 ^ 53 \<Longrightarrow>
   count (reduce_all s acts) = fold (\<lambda>a c. counter_spec c a) acts (count s)"
proof (induction acts arbitrary: s)
  case Nil
  then show ?case by (simp add: reduce_all_def)
next
  case (Cons a acts)
  then have small: "\<bar>count s\<bar> < 2 ^ 53" by simp
  then have "\<bar>count (reducer s a)\<bar> + int (length acts) \<le> 2 ^ 53"
    using Cons.prems reducer_step_progress [OF small, of a] by simp
  then have "count (reduce_all (reducer s a) acts)
      = fold (\<lambda>a c. counter_spec c a) acts (count (reducer s a))"
    by (rule Cons.IH)
  with small show ?case
    by (simp add: reduce_all_def reducer_exact)
qed

theorem reduce_all_refines_counter_spec_witness:
  "\<bar>count \<lparr>count = 0\<rparr>\<bar> + int (length [\<lparr>action_type = INCREMENT\<rparr>, \<lparr>action_type = INCREMENT\<rparr>,
      \<lparr>action_type = DECREMENT\<rparr>]) \<le> 2 ^ 53
   \<and> count (reduce_all \<lparr>count = 0\<rparr> [\<lparr>action_type = INCREMENT\<rparr>, \<lparr>action_type = INCREMENT\<rparr>,
      \<lparr>action_type = DECREMENT\<rparr>]) = 1"
proof -
  let ?acts = "[\<lparr>action_type = INCREMENT\<rparr>, \<lparr>action_type = INCREMENT\<rparr>, \<lparr>action_type = DECREMENT\<rparr>]"
  have h: "\<bar>count \<lparr>count = 0\<rparr>\<bar> + int (length ?acts) \<le> 2 ^ 53" by simp
  have "count (reduce_all \<lparr>count = 0\<rparr> ?acts) = fold (\<lambda>a c. counter_spec c a) ?acts 0"
    using reduce_all_refines_counter_spec [OF h] by simp
  also have "\<dots> = 1" by (simp add: counter_spec_def)
  finally show ?thesis using h by simp
qed

text \<open>
  C7. The \<^verbatim>\<open>INCREMENT\<close> branch: below \<open>2^53\<close> the new state is a fresh object
  whose count is the old count plus one.
\<close>

theorem reducer_increment_exact:
  "- (2 ^ 53) \<le> count s \<Longrightarrow> count s < 2 ^ 53 \<Longrightarrow>
   reducer s \<lparr>action_type = INCREMENT\<rparr> = \<lparr>count = count s + 1\<rparr>"
  by (simp add: reducer_increment js_add_exact abs_le_iff)

theorem reducer_increment_exact_witness:
  "- (2 ^ 53) \<le> count \<lparr>count = 41\<rparr> \<and> count \<lparr>count = 41\<rparr> < 2 ^ 53 \<and>
   reducer \<lparr>count = 41\<rparr> \<lparr>action_type = INCREMENT\<rparr> = \<lparr>count = 42\<rparr>"
  using reducer_increment_exact [of "\<lparr>count = 41\<rparr>"] by simp

text \<open>
  C8. The \<^verbatim>\<open>DECREMENT\<close> branch: above \<open>-2^53\<close> the new count is the old count
  minus one.
\<close>

theorem reducer_decrement_exact:
  "- (2 ^ 53) < count s \<Longrightarrow> count s \<le> 2 ^ 53 \<Longrightarrow>
   reducer s \<lparr>action_type = DECREMENT\<rparr> = \<lparr>count = count s - 1\<rparr>"
  by (simp add: reducer_decrement js_sub_exact abs_le_iff)

theorem reducer_decrement_exact_witness:
  "- (2 ^ 53) < count \<lparr>count = 0\<rparr> \<and> count \<lparr>count = 0\<rparr> \<le> 2 ^ 53 \<and>
   reducer \<lparr>count = 0\<rparr> \<lparr>action_type = DECREMENT\<rparr> = \<lparr>count = -1\<rparr>"
  using reducer_decrement_exact [of "\<lparr>count = 0\<rparr>"] by simp

text \<open>
  C9. The \<^verbatim>\<open>default\<close> branch: an action of any other type returns the input state
  itself, whatever the count.
\<close>

theorem reducer_unknown_identity:
  "t \<noteq> INCREMENT \<Longrightarrow> t \<noteq> DECREMENT \<Longrightarrow> reducer s \<lparr>action_type = t\<rparr> = s"
  by (simp add: reducer_other)

theorem reducer_unknown_identity_witness:
  "''RESET'' \<noteq> INCREMENT \<and> ''RESET'' \<noteq> DECREMENT \<and>
   reducer \<lparr>count = 7\<rparr> \<lparr>action_type = ''RESET''\<rparr> = \<lparr>count = 7\<rparr>"
  using reducer_unknown_identity [of "''RESET''" "\<lparr>count = 7\<rparr>"]
  by (simp add: INCREMENT_def DECREMENT_def)

text \<open>
  C13. Invariant: the count stays in \<open>[-2^53, 2^53]\<close> under every sequence of actions
  from a state inside it.
\<close>

theorem reduce_all_safe_count:
  "safe_count s \<Longrightarrow> safe_count (reduce_all s acts)"
proof (induction acts arbitrary: s)
  case Nil
  then show ?case by (simp add: reduce_all_def)
next
  case (Cons a acts)
  from Cons.prems have "safe_count (reducer s a)"
    unfolding safe_count_def by (rule reducer_step_bound)
  then have "safe_count (reduce_all (reducer s a) acts)" by (rule Cons.IH)
  then show ?case by (simp add: reduce_all_def)
qed

theorem reduce_all_safe_count_witness:
  "safe_count initialState \<and> safe_count (reduce_all initialState [\<lparr>action_type = DECREMENT\<rparr>])"
  using reduce_all_safe_count [of initialState "[\<lparr>action_type = DECREMENT\<rparr>]"]
  by (simp add: safe_count_def initialState_def)

text \<open>
  C22. \<^verbatim>\<open>Infinity\<close> is unreachable: from any finite count (a double of magnitude
  at most \<^verbatim>\<open>Number.MAX_VALUE\<close>), any sequence of actions keeps the magnitude of
  the count within the larger of its start and \<open>2^54\<close>, hence finite. So the model's
  integers, which have no \<^verbatim>\<open>Infinity\<close>, lose nothing.
\<close>

theorem reduce_all_never_overflows:
  assumes "is_double (count s)" and "\<bar>count s\<bar> \<le> MAX_VALUE"
  shows "\<bar>count (reduce_all s acts)\<bar> \<le> max \<bar>count s\<bar> (2 ^ 54)
    \<and> \<bar>count (reduce_all s acts)\<bar> \<le> MAX_VALUE"
  using reduce_all_far_bound [OF assms(1), of acts] assms(2) MAX_VALUE_above_2p54 by simp

theorem reduce_all_never_overflows_witness:
  "is_double (count \<lparr>count = 2 ^ 60\<rparr>) \<and> \<bar>count \<lparr>count = 2 ^ 60\<rparr>\<bar> \<le> MAX_VALUE
   \<and> \<bar>count (reduce_all \<lparr>count = 2 ^ 60\<rparr> [\<lparr>action_type = INCREMENT\<rparr>, \<lparr>action_type = DECREMENT\<rparr>])\<bar>
       \<le> MAX_VALUE"
proof -
  have d: "is_double (count \<lparr>count = (2::int) ^ 60\<rparr>)" by (simp add: js_eval)
  have m: "\<bar>count \<lparr>count = (2::int) ^ 60\<rparr>\<bar> \<le> MAX_VALUE" by (simp add: MAX_VALUE_def)
  show ?thesis
    using reduce_all_never_overflows [OF d m, of "[\<lparr>action_type = INCREMENT\<rparr>, \<lparr>action_type = DECREMENT\<rparr>]"] d m
    by simp
qed

text \<open>
  C23. Beyond \<open>2^54\<close> the counter is frozen: both buttons' actions leave a count
  whose magnitude exceeds \<open>2^54\<close> unchanged, since \<open>\<plusminus>1\<close> is less than half the
  distance to the neighbouring doubles (the spec promises a change by exactly one).
\<close>

theorem reducer_frozen_beyond_2p54:
  assumes "is_double (count s)" and "2 ^ 54 < \<bar>count s\<bar>"
  shows "reducer s a = s"
proof -
  have add: "js_add (count s) 1 = count s"
    using assms by (intro js_add_one_far) auto
  have "js_add (- count s) 1 = - count s"
    using assms by (intro js_add_one_far) auto
  then have sub: "js_sub (count s) 1 = count s"
    by (simp add: js_sub_neg)
  show ?thesis
    by (simp add: reducer_def add sub)
qed

theorem reducer_frozen_beyond_2p54_witness:
  "is_double (count \<lparr>count = 2 ^ 54 + 4\<rparr>) \<and> 2 ^ 54 < \<bar>count \<lparr>count = 2 ^ 54 + 4\<rparr>\<bar>
   \<and> reducer \<lparr>count = 2 ^ 54 + 4\<rparr> \<lparr>action_type = INCREMENT\<rparr> = \<lparr>count = 2 ^ 54 + 4\<rparr>"
proof -
  have d: "is_double (count \<lparr>count = (2::int) ^ 54 + 4\<rparr>)" by (simp add: js_eval)
  have b: "2 ^ 54 < \<bar>count \<lparr>count = (2::int) ^ 54 + 4\<rparr>\<bar>" by simp
  show ?thesis
    using reducer_frozen_beyond_2p54 [OF d b, of "\<lparr>action_type = INCREMENT\<rparr>"] d b by simp
qed

end
