(* ===== verification/Store.thy ===== *)
theory Store
  imports Prelude
begin

text \<open>
  \<^verbatim>\<open>createStore\<close> (\<^verbatim>\<open>src/src/App.js\<close>, lines 22--43), generic in the state
  \<open>'s\<close>, the action \<open>'a\<close> and the listener references \<open>'l\<close>. The variables the
  closure captures (the reducer, \<^verbatim>\<open>state\<close>, \<^verbatim>\<open>listeners\<close>) are the record
  \<open>store\<close>. A listener is a reference (JavaScript compares functions with
  \<^verbatim>\<open>!==\<close>); what calling it does is the listener behaviour \<open>beh\<close>: given the
  state it reads through \<^verbatim>\<open>getState\<close> and the rest of the program's state \<open>'w\<close>
  it returns the new \<open>'w\<close> and the store calls it makes, as a list of \<open>cmd\<close>.
  \<^verbatim>\<open>dispatch\<close> runs on an explicit call stack of frames: \<open>Run cs\<close> is a
  listener body still to execute, \<open>Notify ls\<close> the rest of a
  \<^verbatim>\<open>listeners.forEach\<close> loop, \<open>Unwinding e\<close> an exception \<open>e\<close> thrown by a
  listener body (the command \<open>Throw e\<close>) on its way out. \<open>dispatch_step\<close> is one
  step of that machine and \<open>run\<close> iterates it; a listener that dispatches from inside
  a notification pushes a new pass on the stack, as the nested JavaScript call does, and
  a run that never empties the stack is \<open>None\<close> (JavaScript overflows its stack
  there). A run that ends gives a \<open>completion\<close>: \<open>Returned c\<close>, or
  \<open>Threw e c\<close> when an exception left \<^verbatim>\<open>dispatch\<close> (nothing in
  \<^verbatim>\<open>createStore\<close> catches), with the state \<open>c\<close> reached when it was thrown.
\<close>

record ('s, 'a, 'l) store =
  reduce :: "('s, 'a) reducer_fn"
  state :: 's
  listeners :: "'l list"

datatype ('a, 'l) cmd = Dispatch 'a | Subscribe 'l | Unsubscribe 'l | Throw js_error

datatype ('a, 'l) frame = Run "('a, 'l) cmd list" | Notify "'l list" | Unwinding js_error

type_synonym ('s, 'a, 'l, 'w) listener_beh = "'l \<Rightarrow> 's \<Rightarrow> 'w \<Rightarrow> 'w \<times> ('a, 'l) cmd list"

type_synonym ('s, 'a, 'l, 'w) config = "('s, 'a, 'l) store \<times> 'w"

definition createStore :: "('s, 'a) reducer_fn \<Rightarrow> 's \<Rightarrow> ('s, 'a, 'l) store" where
  "createStore red initial = \<lparr>reduce = red, state = initial, listeners = []\<rparr>"

definition getState :: "('s, 'a, 'l) store \<Rightarrow> 's" where
  "getState st = state st"

definition subscribe :: "'l \<Rightarrow> ('s, 'a, 'l) store \<Rightarrow> ('s, 'a, 'l) store" where
  "subscribe l st = st\<lparr>listeners := listeners st @ [l]\<rparr>"

definition unsubscribe :: "'l \<Rightarrow> ('s, 'a, 'l) store \<Rightarrow> ('s, 'a, 'l) store" where
  "unsubscribe l st = st\<lparr>listeners := filter (\<lambda>x. x \<noteq> l) (listeners st)\<rparr>"

text \<open>The state update of \<^verbatim>\<open>dispatch\<close> (line 29), before the listeners are called.\<close>

definition reduce_state :: "'a \<Rightarrow> ('s, 'a, 'l) store \<Rightarrow> ('s, 'a, 'l) store" where
  "reduce_state a st = st\<lparr>state := reduce st (state st) a\<rparr>"

fun dispatch_step ::
  "('s, 'a, 'l, 'w) listener_beh \<Rightarrow> ('a, 'l) frame list \<Rightarrow> ('s, 'a, 'l, 'w) config
   \<Rightarrow> (('a, 'l) frame list \<times> ('s, 'a, 'l, 'w) config) option" where
  "dispatch_step beh [] c = None"
| "dispatch_step beh (Run [] # k) c = Some (k, c)"
| "dispatch_step beh (Run (Dispatch a # cs) # k) (st, w) =
     (let st' = reduce_state a st in Some (Notify (listeners st') # Run cs # k, (st', w)))"
| "dispatch_step beh (Run (Subscribe l # cs) # k) (st, w) = Some (Run cs # k, (subscribe l st, w))"
| "dispatch_step beh (Run (Unsubscribe l # cs) # k) (st, w) = Some (Run cs # k, (unsubscribe l st, w))"
| "dispatch_step beh (Run (Throw e # cs) # k) c = Some ([Unwinding e], c)"
| "dispatch_step beh (Unwinding e # k) c = None"
| "dispatch_step beh (Notify [] # k) c = Some (k, c)"
| "dispatch_step beh (Notify (l # ls) # k) (st, w) =
     (case beh l (getState st) w of (w', cs) \<Rightarrow> Some (Run cs # Notify ls # k, (st, w')))"

text \<open>
  The machine halts with an empty stack (\<^verbatim>\<open>dispatch\<close> returned) or with an
  exception unwinding it: nothing between a listener and the caller of
  \<^verbatim>\<open>dispatch\<close> catches (\<^verbatim>\<open>forEach\<close> does not), so a throw discards every
  pending frame, and the state reached so far stays.
\<close>

fun completion_of ::
  "('a, 'l) frame list \<Rightarrow> ('s, 'a, 'l, 'w) config \<Rightarrow> ('s, 'a, 'l, 'w) config completion" where
  "completion_of (Unwinding e # k) c = Threw e c"
| "completion_of k c = Returned c"

partial_function (option) run ::
  "('s, 'a, 'l, 'w) listener_beh \<Rightarrow> ('a, 'l) frame list \<Rightarrow> ('s, 'a, 'l, 'w) config
   \<Rightarrow> ('s, 'a, 'l, 'w) config completion option" where
  "run beh k c =
     (case dispatch_step beh k c of None \<Rightarrow> Some (completion_of k c) | Some (k', c') \<Rightarrow> run beh k' c')"

definition dispatch ::
  "('s, 'a, 'l, 'w) listener_beh \<Rightarrow> 'a \<Rightarrow> ('s, 'a, 'l, 'w) config
   \<Rightarrow> ('s, 'a, 'l, 'w) config completion option" where
  "dispatch beh a c = run beh [Run [Dispatch a]] c"

subsection \<open>Fuel: the same machine, cut off after \<open>n\<close> steps\<close>

fun exec ::
  "nat \<Rightarrow> ('s, 'a, 'l, 'w) listener_beh \<Rightarrow> ('a, 'l) frame list \<Rightarrow> ('s, 'a, 'l, 'w) config
   \<Rightarrow> ('s, 'a, 'l, 'w) config completion option" where
  "exec 0 beh k c = None"
| "exec (Suc n) beh k c =
     (case dispatch_step beh k c of
        None \<Rightarrow> Some (completion_of k c) | Some (k', c') \<Rightarrow> exec n beh k' c')"

subsection \<open>Reference semantics of a pass whose listeners never dispatch\<close>

text \<open>
  When no listener dispatches or throws, a pass is a plain loop over the snapshot of the
  listener array taken when \<^verbatim>\<open>forEach\<close> starts: each listener in turn reads the
  state, updates \<open>'w\<close> and (un)subscribes, and the loop goes on over the snapshot.
\<close>

fun subscription_effect :: "('a, 'l) cmd \<Rightarrow> ('s, 'a, 'l) store \<Rightarrow> ('s, 'a, 'l) store" where
  "subscription_effect (Subscribe l) st = subscribe l st"
| "subscription_effect (Unsubscribe l) st = unsubscribe l st"
| "subscription_effect (Dispatch a) st = st"
| "subscription_effect (Throw e) st = st"

fun is_subscription :: "('a, 'l) cmd \<Rightarrow> bool" where
  "is_subscription (Subscribe l) = True"
| "is_subscription (Unsubscribe l) = True"
| "is_subscription (Dispatch a) = False"
| "is_subscription (Throw e) = False"

fun notify_all ::
  "('s, 'a, 'l, 'w) listener_beh \<Rightarrow> 'l list \<Rightarrow> ('s, 'a, 'l, 'w) config \<Rightarrow> ('s, 'a, 'l, 'w) config" where
  "notify_all beh [] c = c"
| "notify_all beh (l # ls) (st, w) =
     (case beh l (getState st) w of (w', cs) \<Rightarrow> notify_all beh ls (fold subscription_effect cs st, w'))"

definition quiet :: "('s, 'a, 'l, 'w) listener_beh \<Rightarrow> bool" where
  "quiet beh \<longleftrightarrow> (\<forall>l s w. list_all is_subscription (snd (beh l s w)))"

definition records_calls :: "('s, 'a, 'l, ('l \<times> 's) list) listener_beh \<Rightarrow> bool" where
  "records_calls beh \<longleftrightarrow> (\<forall>l s w. fst (beh l s w) = w @ [(l, s)])"

subsection \<open>Bounded re-entrancy\<close>

text \<open>
  A budget for re-entrant dispatches: a measure \<open>\<mu>\<close> on the rest of the program's
  state that every listener call lowers by at least the number of \<^verbatim>\<open>dispatch\<close>
  calls its body makes. \<open>dispatch_work\<close> is the lexicographic measure on the
  machine that every step lowers under such a budget: the budget left plus the pending
  dispatch commands, the pending listener calls, the pending commands, the frames.
\<close>

fun is_dispatch :: "('a, 'l) cmd \<Rightarrow> bool" where
  "is_dispatch (Dispatch a) = True"
| "is_dispatch (Subscribe l) = False"
| "is_dispatch (Unsubscribe l) = False"
| "is_dispatch (Throw e) = False"

definition reentry_budget :: "('s, 'a, 'l, 'w) listener_beh \<Rightarrow> ('w \<Rightarrow> nat) \<Rightarrow> bool" where
  "reentry_budget beh \<mu> \<longleftrightarrow>
     (\<forall>l s w. \<mu> (fst (beh l s w)) + length (filter is_dispatch (snd (beh l s w))) \<le> \<mu> w)"

primrec frame_dispatches :: "('a, 'l) frame \<Rightarrow> nat" where
  "frame_dispatches (Run cs) = length (filter is_dispatch cs)"
| "frame_dispatches (Notify ls) = 0"
| "frame_dispatches (Unwinding e) = 0"

primrec frame_calls :: "('a, 'l) frame \<Rightarrow> nat" where
  "frame_calls (Run cs) = 0"
| "frame_calls (Notify ls) = length ls"
| "frame_calls (Unwinding e) = 0"

primrec frame_cmds :: "('a, 'l) frame \<Rightarrow> nat" where
  "frame_cmds (Run cs) = length cs"
| "frame_cmds (Notify ls) = 0"
| "frame_cmds (Unwinding e) = 0"

definition dispatch_work ::
  "('w \<Rightarrow> nat) \<Rightarrow> ((('a, 'l) frame list \<times> ('s, 'a, 'l, 'w) config) \<Rightarrow> nat) list" where
  "dispatch_work \<mu> =
     [\<lambda>(k, c). \<mu> (snd c) + sum_list (map frame_dispatches k),
      \<lambda>(k, c). sum_list (map frame_calls k),
      \<lambda>(k, c). sum_list (map frame_cmds k),
      \<lambda>(k, c). length k]"

subsection \<open>Lemmas on the machine\<close>

lemma run_Nil [simp]: "run beh [] c = Some (Returned c)"
  by (subst run.simps) simp

lemma run_Unwinding [simp]: "run beh (Unwinding e # k) c = Some (Threw e c)"
  by (subst run.simps) simp

lemma run_final: "dispatch_step beh k c = None \<Longrightarrow> run beh k c = Some (completion_of k c)"
  by (subst run.simps) simp

lemma run_step:
  "dispatch_step beh k c = Some (k', c') \<Longrightarrow> run beh k c = run beh k' c'"
  by (subst run.simps) simp

text \<open>One lemma per step of the machine, for evaluating runs on symbolic stores.\<close>

lemma run_Run_Nil: "run beh (Run [] # k) c = run beh k c"
  by (simp add: run_step)

lemma run_Run_Dispatch:
  "run beh (Run (Dispatch a # cs) # k) (st, w)
     = run beh (Notify (listeners (reduce_state a st)) # Run cs # k) (reduce_state a st, w)"
  by (simp add: run_step Let_def)

lemma run_Notify_Nil: "run beh (Notify [] # k) c = run beh k c"
  by (simp add: run_step)

lemma run_Notify_Cons:
  "run beh (Notify (l # ls) # k) (st, w)
     = run beh (Run (snd (beh l (getState st) w)) # Notify ls # k) (st, fst (beh l (getState st) w))"
  by (cases "beh l (getState st) w") (simp add: run_step)

lemmas run_simps = run_Run_Nil run_Run_Dispatch run_Notify_Nil run_Notify_Cons

lemma subscription_effect_state [simp]:
  "state (subscription_effect x st) = state st" "reduce (subscription_effect x st) = reduce st"
  by (cases x; simp add: subscribe_def unsubscribe_def)+

lemma fold_subscription_effect_state [simp]:
  "state (fold subscription_effect cs st) = state st"
  "reduce (fold subscription_effect cs st) = reduce st"
  by (induction cs arbitrary: st) simp_all

lemma run_Run_quiet:
  "list_all is_subscription cs \<Longrightarrow>
   run beh (Run cs # k) (st, w) = run beh k (fold subscription_effect cs st, w)"
proof (induction cs arbitrary: st)
  case Nil
  then show ?case by (simp add: run_step)
next
  case (Cons x cs)
  then show ?case by (cases x) (simp_all add: run_step)
qed

text \<open>
  A prefix of a pass whose listeners only (un)subscribe runs as \<open>notify_all\<close>, and the
  pass goes on with the rest of the snapshot; a listener whose body throws ends the
  whole dispatch with its exception, in the state and world it has reached.
\<close>

lemma run_Notify_append:
  "\<forall>l\<in>set ls1. \<forall>s w. list_all is_subscription (snd (beh l s w)) \<Longrightarrow>
   run beh (Notify (ls1 @ ls) # k) c = run beh (Notify ls # k) (notify_all beh ls1 c)"
proof (induction ls1 arbitrary: c)
  case Nil
  then show ?case by simp
next
  case (Cons l ls1)
  obtain st w where c: "c = (st, w)" by fastforce
  obtain w' cs where b: "beh l (getState st) w = (w', cs)" by fastforce
  from Cons.prems b have "list_all is_subscription cs"
    by (metis list.set_intros(1) snd_conv)
  with Cons b c show ?case
    by (simp add: run_step run_Run_quiet)
qed

lemma run_Notify_quiet:
  "quiet beh \<Longrightarrow> run beh (Notify ls # k) c = run beh k (notify_all beh ls c)"
  using run_Notify_append [of "ls" beh "[]" k c] by (simp add: quiet_def run_step)

lemma run_Notify_throw:
  "snd (beh l (getState st) w) = Throw e # cs \<Longrightarrow>
   run beh (Notify (l # ls) # k) (st, w) = Some (Threw e (st, fst (beh l (getState st) w)))"
  by (cases "beh l (getState st) w") (simp add: run_step)

lemma notify_all_state [simp]:
  "state (fst (notify_all beh ls c)) = state (fst c)"
  "reduce (fst (notify_all beh ls c)) = reduce (fst c)"
  by (induction beh ls c rule: notify_all.induct) (simp_all split: prod.splits)

lemma notify_all_log:
  "records_calls beh \<Longrightarrow>
   snd (notify_all beh ls (st, w)) = w @ map (\<lambda>l. (l, state st)) ls"
proof (induction ls arbitrary: st w)
  case Nil
  then show ?case by simp
next
  case (Cons l ls)
  obtain w' cs where b: "beh l (getState st) w = (w', cs)" by fastforce
  with Cons.prems have "w' = w @ [(l, state st)]"
    unfolding records_calls_def getState_def by (metis fst_conv)
  with Cons b show ?case by simp
qed

lemma dispatch_quiet:
  "quiet beh \<Longrightarrow>
   dispatch beh a (st, w) = Some (Returned (notify_all beh (listeners st) (reduce_state a st, w)))"
  by (simp add: dispatch_def run_step run_Notify_quiet reduce_state_def)

lemma exec_run: "exec n beh k c = Some r \<Longrightarrow> run beh k c = Some r"
proof (induction n arbitrary: k c)
  case 0
  then show ?case by simp
next
  case (Suc n)
  then show ?case
    by (cases "dispatch_step beh k c") (auto simp: run_step run_final)
qed

lemma run_exec:
  assumes "run beh k c = Some r"
  shows "\<exists>n. exec n beh k c = Some r"
proof (rule run.raw_induct [where P = "\<lambda>beh k c r. \<exists>n. exec n beh k c = Some r", OF _ assms])
  fix f beh k c r
  assume IH: "\<And>k c b r. f k c b = Some r \<Longrightarrow> \<exists>n. exec n k c b = Some r"
    and eq: "(case dispatch_step beh k c of None \<Rightarrow> Some (completion_of k c) | Some (k', c') \<Rightarrow> f beh k' c') = Some r"
  show "\<exists>n. exec n beh k c = Some r"
  proof (cases "dispatch_step beh k c")
    case None
    with eq have "exec 1 beh k c = Some r" by simp
    then show ?thesis ..
  next
    case (Some kc)
    obtain k' c' where kc: "kc = (k', c')" by (cases kc)
    with Some eq have "f beh k' c' = Some r" by simp
    then obtain n where "exec n beh k' c' = Some r" using IH by blast
    with Some kc have "exec (Suc n) beh k c = Some r" by simp
    then show ?thesis ..
  qed
qed

lemma dispatch_step_work:
  assumes "reentry_budget beh \<mu>" and "dispatch_step beh k c = Some (k', c')"
  shows "((k', c'), (k, c)) \<in> measures (dispatch_work \<mu>)"
  using assms(2)
proof (cases "(beh, k, c)" rule: dispatch_step.cases)
  case (9 beh' l ls k0 st w)
  obtain w' cs where b: "beh l (getState st) w = (w', cs)" by fastforce
  with assms(1) have "\<mu> w' + length (filter is_dispatch cs) \<le> \<mu> w"
    unfolding reentry_budget_def by (metis fst_conv snd_conv)
  with 9 b assms(2) show ?thesis
    by (auto simp: dispatch_work_def intro: measures_less measures_lesseq)
qed (auto simp: dispatch_work_def Let_def intro: measures_less measures_lesseq)


lemma run_terminates:
  assumes "reentry_budget beh \<mu>"
  shows "\<exists>r. run beh k c = Some r"
proof (induction "(k, c)" arbitrary: k c rule: wf_induct_rule [OF wf_measures [of "dispatch_work \<mu>"]])
  case 1
  show ?case
  proof (cases "dispatch_step beh k c")
    case None
    then show ?thesis by (simp add: run_final)
  next
    case (Some kc)
    obtain k' c' where kc: "kc = (k', c')" by (cases kc)
    with Some assms have "((k', c'), (k, c)) \<in> measures (dispatch_work \<mu>)"
      by (simp add: dispatch_step_work)
    with 1 obtain r where "run beh k' c' = Some r" by blast
    with Some kc show ?thesis by (simp add: run_step)
  qed
qed

lemma run_None_iff: "run beh k c = None \<longleftrightarrow> (\<forall>n. exec n beh k c = None)"
  by (metis exec_run not_None_eq run_exec)

lemma exec_forever:
  assumes loop: "\<forall>s w. \<exists>a'. snd (beh l s w) = [Dispatch a']"
  shows "listeners st = [l] \<Longrightarrow>
    exec n beh (Run [Dispatch a] # k) (st, w) = None \<and> exec n beh (Notify [l] # k) (st, w) = None"
proof (induction n arbitrary: a k st w)
  case 0
  then show ?case by simp
next
  case (Suc n)
  obtain w' cs where b: "beh l (getState st) w = (w', cs)" by fastforce
  with loop obtain a' where cs: "cs = [Dispatch a']" by (metis snd_conv)
  have "listeners (reduce_state a st) = [l]"
    using Suc.prems by (simp add: reduce_state_def)
  then have "exec n beh (Notify [l] # Run [] # k) (reduce_state a st, w) = None"
    using Suc.IH by blast
  moreover have "exec n beh (Run [Dispatch a'] # Notify [] # k) (st, w') = None"
    using Suc.IH Suc.prems by blast
  ultimately show ?case
    using Suc.prems b cs \<open>listeners (reduce_state a st) = [l]\<close> by (simp add: Let_def)
qed

lemma dispatch_log:
  assumes "quiet beh" and "records_calls beh"
  shows "dispatch beh a (st, w) = Some (Returned (fst (notify_all beh (listeners st) (reduce_state a st, w)),
           w @ map (\<lambda>l. (l, reduce st (state st) a)) (listeners st)))"
proof -
  have "snd (notify_all beh (listeners st) (reduce_state a st, w))
      = w @ map (\<lambda>l. (l, reduce st (state st) a)) (listeners st)"
    using assms(2) by (simp add: notify_all_log reduce_state_def)
  with dispatch_quiet [OF assms(1)] show ?thesis
    by (metis prod.collapse)
qed

lemma map_fst_pairs [simp]: "map (fst \<circ> (\<lambda>m. (m, x))) xs = xs"
  by (simp add: o_def)

subsection \<open>Properties of the store\<close>

text \<open>
  C1. When no listener dispatches, \<^verbatim>\<open>dispatch\<close> returns, the new state is the
  reducer's result, and every listener registered when the dispatch started is called
  exactly once, in registration order, each reading the new state, even if listeners
  subscribe or unsubscribe during the pass.
\<close>

theorem dispatch_calls_each_listener_once:
  assumes "quiet beh" and "records_calls beh"
  shows "\<exists>st'. dispatch beh a (st, w) =
           Some (Returned (st', w @ map (\<lambda>l. (l, reduce st (state st) a)) (listeners st)))
         \<and> state st' = reduce st (state st) a \<and> reduce st' = reduce st"
proof -
  let ?st = "reduce_state a st"
  have "dispatch beh a (st, w) = Some (Returned (notify_all beh (listeners st) (?st, w)))"
    using assms(1) by (rule dispatch_quiet)
  moreover have "snd (notify_all beh (listeners st) (?st, w))
      = w @ map (\<lambda>l. (l, reduce st (state st) a)) (listeners st)"
    using assms(2) by (simp add: notify_all_log reduce_state_def)
  moreover have "state (fst (notify_all beh (listeners st) (?st, w))) = reduce st (state st) a"
    "reduce (fst (notify_all beh (listeners st) (?st, w))) = reduce st"
    by (simp_all add: reduce_state_def)
  ultimately show ?thesis
    by (metis prod.collapse)
qed

theorem dispatch_calls_each_listener_once_witness:
  "quiet (\<lambda>l s w. (w @ [(l, s)], if l = (1::nat) then [Unsubscribe 2, Subscribe 3] else []))
   \<and> records_calls (\<lambda>l s w. (w @ [(l, s)], if l = (1::nat) then [Unsubscribe 2, Subscribe 3] else []))
   \<and> (\<exists>st'. dispatch (\<lambda>l s w. (w @ [(l, s)], if l = (1::nat) then [Unsubscribe 2, Subscribe (3::nat)] else []))
          (5::int) (\<lparr>reduce = (+), state = 1, listeners = [1, 2]\<rparr>, [])
        = Some (Returned (st', [(1, 6), (2, 6)])) \<and> state st' = 6 \<and> reduce st' = (+))"
proof -
  let ?b = "\<lambda>l s w. (w @ [(l, s)], if l = (1::nat) then [Unsubscribe 2, Subscribe (3::nat)] else [])"
  have q: "quiet ?b" by (simp add: quiet_def)
  have r: "records_calls ?b" by (simp add: records_calls_def)
  show ?thesis
    using dispatch_calls_each_listener_once [OF q r, of "5::int" "\<lparr>reduce = (+), state = 1, listeners = [1, 2]\<rparr>" "[]"]
      q r by simp
qed

text \<open>
  C5. After a listener's unsubscribe function has run, a later \<^verbatim>\<open>dispatch\<close> whose
  listeners do not dispatch does not call that listener, and calling the unsubscribe
  function a second time changes nothing.
\<close>

theorem unsubscribe_stops_notifications:
  assumes "quiet beh" and "records_calls beh"
  shows "unsubscribe l (unsubscribe l st) = unsubscribe l st \<and>
    (\<exists>st' w'. dispatch beh a (unsubscribe l st, w) = Some (Returned (st', w')) \<and>
       l \<notin> fst ` set (drop (length w) w'))"
proof -
  let ?st = "unsubscribe l st"
  let ?r = "notify_all beh (listeners ?st) (reduce_state a ?st, w)"
  have d: "dispatch beh a (?st, w) = Some (Returned ?r)"
    using assms(1) by (rule dispatch_quiet)
  have "snd ?r = w @ map (\<lambda>m. (m, reduce st (state st) a)) (filter (\<lambda>x. x \<noteq> l) (listeners st))"
    using assms(2) by (simp add: notify_all_log reduce_state_def unsubscribe_def)
  then have "fst ` set (drop (length w) (snd ?r)) = set (filter (\<lambda>x. x \<noteq> l) (listeners st))"
    by (simp add: image_image)
  then have "l \<notin> fst ` set (drop (length w) (snd ?r))"
    by simp
  with d have "\<exists>st' w'. dispatch beh a (?st, w) = Some (Returned (st', w')) \<and> l \<notin> fst ` set (drop (length w) w')"
    by (metis prod.collapse)
  then show ?thesis
    by (simp add: unsubscribe_def)
qed

theorem unsubscribe_stops_notifications_witness:
  "quiet (\<lambda>(l::nat) (s::int) w. (w @ [(l, s)], [] :: (int, nat) cmd list))
   \<and> records_calls (\<lambda>(l::nat) (s::int) w. (w @ [(l, s)], [] :: (int, nat) cmd list))
   \<and> unsubscribe (2::nat) (unsubscribe 2 \<lparr>reduce = (+), state = (0::int), listeners = [1, 2, 3]\<rparr>)
       = unsubscribe 2 \<lparr>reduce = (+), state = 0, listeners = [1, 2, 3]\<rparr>
   \<and> (\<exists>st' w'. dispatch (\<lambda>(l::nat) (s::int) w. (w @ [(l, s)], [] :: (int, nat) cmd list)) 1
          (unsubscribe 2 \<lparr>reduce = (+), state = 0, listeners = [1, 2, 3]\<rparr>, [(2, 0)])
        = Some (Returned (st', w')) \<and> 2 \<notin> fst ` set (drop (length [(2::nat, 0::int)]) w'))"
proof -
  let ?b = "\<lambda>(l::nat) (s::int) w. (w @ [(l, s)], [] :: (int, nat) cmd list)"
  have q: "quiet ?b" by (simp add: quiet_def)
  have r: "records_calls ?b" by (simp add: records_calls_def)
  show ?thesis
    using unsubscribe_stops_notifications [OF q r, of 2 "\<lparr>reduce = (+), state = 0, listeners = [1, 2, 3]\<rparr>" 1 "[(2, 0)]"]
      q r by blast
qed

text \<open>
  C15. A listener that dispatches every time it is called makes \<^verbatim>\<open>dispatch\<close>
  never return: each notification starts a nested dispatch that notifies it again (in
  JavaScript the call stack overflows).
\<close>

theorem dispatch_reentrant_loop:
  assumes "listeners st = [l]" and "\<forall>s w. \<exists>a'. snd (beh l s w) = [Dispatch a']"
  shows "dispatch beh a (st, w) = None"
proof -
  have "\<forall>n. exec n beh [Run [Dispatch a]] (st, w) = None"
    using exec_forever [where beh = beh and l = l and st = st, OF assms(2) assms(1)] by blast
  then show ?thesis
    by (simp add: dispatch_def run_None_iff)
qed

theorem dispatch_reentrant_loop_witness:
  "listeners \<lparr>reduce = (+), state = (0::int), listeners = [7::nat]\<rparr> = [7]
   \<and> (\<forall>s w. \<exists>a'. snd ((\<lambda>(l::nat) (s::int) (w::unit). (w, [Dispatch (1::int)] :: (int, nat) cmd list)) 7 s w)
        = [Dispatch a'])
   \<and> dispatch (\<lambda>(l::nat) (s::int) (w::unit). (w, [Dispatch (1::int)] :: (int, nat) cmd list)) 1
        (\<lparr>reduce = (+), state = (0::int), listeners = [7::nat]\<rparr>, ()) = None"
proof -
  have h1: "listeners \<lparr>reduce = (+), state = (0::int), listeners = [7::nat]\<rparr> = [7]" by simp
  have h2: "\<forall>s w. \<exists>a'. snd ((\<lambda>(l::nat) (s::int) (w::unit). (w, [Dispatch (1::int)] :: (int, nat) cmd list)) 7 s w)
        = [Dispatch a']" by simp
  show ?thesis
    using dispatch_reentrant_loop [OF h1 h2, of 1 "()"] h1 h2 by simp
qed

text \<open>
  C20. Re-entrancy that is bounded ends: when every listener call spends at least one
  unit of some budget per \<^verbatim>\<open>dispatch\<close> it makes, every dispatch returns or
  throws, however the listeners (un)subscribe meanwhile.
\<close>

theorem dispatch_terminates:
  assumes "reentry_budget beh \<mu>"
  shows "\<exists>r. dispatch beh a c = Some r"
  unfolding dispatch_def using assms by (rule run_terminates)

theorem dispatch_terminates_witness:
  "reentry_budget (\<lambda>(l::nat) (s::int) (w::nat). (w - 1, if 0 < w then [Dispatch (1::int)] else [] :: (int, nat) cmd list)) id
   \<and> (\<exists>r. dispatch (\<lambda>(l::nat) (s::int) (w::nat). (w - 1, if 0 < w then [Dispatch (1::int)] else [] :: (int, nat) cmd list)) 1
          (\<lparr>reduce = (+), state = 0, listeners = [7]\<rparr>, 3) = Some r)"
proof -
  have b: "reentry_budget (\<lambda>(l::nat) (s::int) (w::nat). (w - 1, if 0 < w then [Dispatch (1::int)] else [] :: (int, nat) cmd list)) id"
    by (simp add: reentry_budget_def)
  show ?thesis
    using dispatch_terminates [OF b, of 1 "(\<lparr>reduce = (+), state = 0, listeners = [7]\<rparr>, 3)"] b by simp
qed

text \<open>
  C16. A listener that dispatches from inside a notification re-enters
  \<^verbatim>\<open>dispatch\<close>: the nested pass notifies every listener with the newer state before
  the outer pass resumes, so a later listener never observes the intermediate state and
  is called twice with the final one. For any reducer, actions and store with two
  listeners, where the first dispatches \<open>a'\<close> when the state satisfies \<open>P\<close> (true
  of the first new state, false of the second) and the second only records its call.
\<close>

theorem nested_dispatch_skips_intermediate_state:
  assumes "listeners st = [l, m]" and "l \<noteq> m"
    and "P (reduce st (state st) a)" and "\<not> P (reduce st (reduce st (state st) a) a')"
  shows "dispatch (\<lambda>x s w. (w @ [(x, s)], if x = l \<and> P s then [Dispatch a'] else [])) a (st, w)
    = Some (Returned (st\<lparr>state := reduce st (reduce st (state st) a) a'\<rparr>,
        w @ [(l, reduce st (state st) a), (l, reduce st (reduce st (state st) a) a'),
             (m, reduce st (reduce st (state st) a) a'), (m, reduce st (reduce st (state st) a) a')]))"
  using assms by (simp add: dispatch_def run_simps reduce_state_def getState_def)

theorem nested_dispatch_skips_intermediate_state_witness:
  "listeners \<lparr>reduce = ((+) :: int \<Rightarrow> int \<Rightarrow> int), state = 0, listeners = [1, 2 :: nat]\<rparr> = [1, 2]
   \<and> (1::nat) \<noteq> 2 \<and> (0 + 1 :: int) < 2 \<and> \<not> (0 + 1 + 1 :: int) < 2
   \<and> dispatch (\<lambda>x (s::int) w. (w @ [(x, s)], if x = (1::nat) \<and> s < 2 then [Dispatch 1] else [])) 1
       (\<lparr>reduce = (+), state = 0, listeners = [1, 2]\<rparr>, [])
     = Some (Returned (\<lparr>reduce = (+), state = 2, listeners = [1, 2]\<rparr>, [(1, 1), (1, 2), (2, 2), (2, 2)]))"
proof -
  have l: "listeners \<lparr>reduce = ((+) :: int \<Rightarrow> int \<Rightarrow> int), state = 0, listeners = [1, 2 :: nat]\<rparr> = [1, 2]" by simp
  have n: "(1::nat) \<noteq> 2" by simp
  have p: "(\<lambda>s::int. s < 2) (0 + 1)" by simp
  have q: "\<not> (\<lambda>s::int. s < 2) (0 + 1 + 1)" by simp
  show ?thesis
    using nested_dispatch_skips_intermediate_state [where P = "\<lambda>s::int. s < 2"
        and st = "\<lparr>reduce = (+), state = 0, listeners = [1, 2]\<rparr>" and l = "1::nat" and m = 2
        and a = 1 and a' = 1 and w = "[]"] l n p q by simp
qed
text \<open>
  C17. Listeners are compared by reference: a function subscribed twice is called twice
  per dispatch, and the unsubscribe function returned by either subscription removes
  both registrations (and any earlier one of the same function).
\<close>

theorem duplicate_subscription:
  assumes "quiet beh" and "records_calls beh"
  shows "(\<exists>st' w'. dispatch beh a (subscribe l (subscribe l st), w) = Some (Returned (st', w'))
            \<and> count_list (map fst (drop (length w) w')) l = count_list (listeners st) l + 2)
         \<and> listeners (unsubscribe l (subscribe l (subscribe l st))) = filter (\<lambda>x. x \<noteq> l) (listeners st)"
proof -
  let ?st = "subscribe l (subscribe l st)"
  have "count_list (map fst (map (\<lambda>m. (m, reduce ?st (state ?st) a)) (listeners ?st))) l
      = count_list (listeners st) l + 2"
    by (simp add: subscribe_def)
  with dispatch_log [OF assms, of a ?st w] show ?thesis
    by (simp add: subscribe_def unsubscribe_def)
qed

theorem duplicate_subscription_witness:
  "quiet (\<lambda>(l::nat) (s::int) w. (w @ [(l, s)], [] :: (int, nat) cmd list))
   \<and> records_calls (\<lambda>(l::nat) (s::int) w. (w @ [(l, s)], [] :: (int, nat) cmd list))
   \<and> (\<exists>st' w'. dispatch (\<lambda>(l::nat) (s::int) w. (w @ [(l, s)], [] :: (int, nat) cmd list)) 1
          (subscribe 4 (subscribe 4 \<lparr>reduce = (+), state = 0, listeners = [3]\<rparr>), []) = Some (Returned (st', w'))
        \<and> count_list (map fst (drop (length ([] :: (nat \<times> int) list)) w')) 4
          = count_list (listeners \<lparr>reduce = ((+) :: int \<Rightarrow> int \<Rightarrow> int), state = 0::int, listeners = [3::nat]\<rparr>) 4 + 2)
   \<and> listeners (unsubscribe 4 (subscribe 4 (subscribe 4 \<lparr>reduce = ((+) :: int \<Rightarrow> int \<Rightarrow> int), state = 0::int, listeners = [3::nat]\<rparr>)))
       = filter (\<lambda>x. x \<noteq> 4) [3]"
proof -
  let ?b = "\<lambda>(l::nat) (s::int) w. (w @ [(l, s)], [] :: (int, nat) cmd list)"
  have q: "quiet ?b" by (simp add: quiet_def)
  have r: "records_calls ?b" by (simp add: records_calls_def)
  show ?thesis
    using duplicate_subscription [OF q r, of 1 4 "\<lparr>reduce = (+), state = 0, listeners = [3]\<rparr>" "[]"] q r
    by simp
qed

text \<open>
  C19. A listener that throws aborts the dispatch, and the exception reaches the caller
  of \<^verbatim>\<open>dispatch\<close>: nothing in \<^verbatim>\<open>dispatch\<close> catches it. The reducer's new
  state stays (line 29 ran before the loop), the listeners before the thrower have been
  called with it, and the listeners after it are never called for this action.
\<close>

theorem dispatch_listener_throw_aborts:
  assumes "records_calls beh"
    and "listeners st = ls1 @ t # ls2"
    and "\<forall>l\<in>set ls1. \<forall>s w. list_all is_subscription (snd (beh l s w))"
    and "\<forall>s w. \<exists>cs. snd (beh t s w) = Throw e # cs"
  shows "\<exists>st'. dispatch beh a (st, w)
           = Some (Threw e (st', w @ map (\<lambda>l. (l, reduce st (state st) a)) (ls1 @ [t])))
         \<and> state st' = reduce st (state st) a \<and> reduce st' = reduce st"
proof -
  let ?st = "reduce_state a st"
  obtain st1 w1 where n: "notify_all beh ls1 (?st, w) = (st1, w1)" by fastforce
  have w1: "w1 = w @ map (\<lambda>l. (l, reduce st (state st) a)) ls1"
    using notify_all_log [OF assms(1), of ls1 ?st w] n by (simp add: reduce_state_def)
  have s1: "state st1 = reduce st (state st) a" "reduce st1 = reduce st"
    using notify_all_state [of beh ls1 "(?st, w)"] unfolding n by (simp_all add: reduce_state_def)
  obtain cs where cs: "snd (beh t (getState st1) w1) = Throw e # cs"
    using assms(4) by blast
  have b: "fst (beh t (getState st1) w1) = w1 @ [(t, reduce st (state st) a)]"
    using assms(1) s1 unfolding records_calls_def getState_def by simp
  have "dispatch beh a (st, w) = run beh (Notify (ls1 @ t # ls2) # [Run []]) (?st, w)"
    using assms(2) by (simp add: dispatch_def run_step reduce_state_def)
  also have "\<dots> = run beh (Notify (t # ls2) # [Run []]) (st1, w1)"
    using run_Notify_append [OF assms(3)] n by simp
  also have "\<dots> = Some (Threw e (st1, w1 @ [(t, reduce st (state st) a)]))"
    using run_Notify_throw [where beh = beh and l = t and st = st1 and w = w1, OF cs] b by simp
  finally show ?thesis
    using s1 w1 by auto
qed

theorem dispatch_listener_throw_aborts_witness:
  "records_calls (\<lambda>(l::nat) (s::int) w. (w @ [(l, s)], if l = 2 then [Throw (Error ''boom'')] else [] :: (int, nat) cmd list))
   \<and> listeners \<lparr>reduce = ((+) :: int \<Rightarrow> int \<Rightarrow> int), state = 0::int, listeners = [1, 2, 3::nat]\<rparr> = [1] @ 2 # [3]
   \<and> list_all (\<lambda>l. \<forall>s w. list_all is_subscription
        (snd ((\<lambda>(l::nat) (s::int) w. (w @ [(l, s)], if l = 2 then [Throw (Error ''boom'')] else [] :: (int, nat) cmd list)) l s w))) [1::nat]
   \<and> (\<forall>s w. \<exists>cs. snd ((\<lambda>(l::nat) (s::int) w. (w @ [(l, s)], if l = 2 then [Throw (Error ''boom'')] else [] :: (int, nat) cmd list)) 2 s w)
        = Throw (Error ''boom'') # cs)
   \<and> (\<exists>st'. dispatch (\<lambda>(l::nat) (s::int) w. (w @ [(l, s)], if l = 2 then [Throw (Error ''boom'')] else [] :: (int, nat) cmd list)) 5
          (\<lparr>reduce = (+), state = 0, listeners = [1, 2, 3]\<rparr>, [])
        = Some (Threw (Error ''boom'') (st', [(1, 5), (2, 5)])) \<and> state st' = 5)"
proof -
  let ?b = "\<lambda>(l::nat) (s::int) w. (w @ [(l, s)], if l = 2 then [Throw (Error ''boom'')] else [] :: (int, nat) cmd list)"
  have r: "records_calls ?b" by (simp add: records_calls_def)
  have q: "\<forall>l\<in>set [1::nat]. \<forall>s w. list_all is_subscription (snd (?b l s w))" by simp
  have t: "\<forall>s w. \<exists>cs. snd (?b 2 s w) = Throw (Error ''boom'') # cs" by simp
  show ?thesis
    using dispatch_listener_throw_aborts [OF r _ q t, of "\<lparr>reduce = (+), state = 0, listeners = [1, 2, 3]\<rparr>" "[3]" 5 "[]"]
      r q t by auto
qed

end
