(* ===== verification/Hook.thy ===== *)
theory Hook
  imports Store
begin

text \<open>
  The binding hook \<^verbatim>\<open>useStore\<close> (\<^verbatim>\<open>src/src/App.js\<close>, lines 47--61) for one
  component instance. Its React state is the record \<open>hook\<close>: the value held by
  \<^verbatim>\<open>useState\<close>, the listener the effect subscribed (if the effect has run and not
  been cleaned up) and whether the component is mounted (React drops a
  \<^verbatim>\<open>setState\<close> on an unmounted component). \<open>useStore_init\<close> is the first
  render (\<^verbatim>\<open>useState(store.getState())\<close>; later renders ignore the argument and
  return the held value, \<open>useStore_value\<close>), \<open>useStore_effect\<close> the effect body,
  \<open>hook_listener\<close> the subscribed arrow function as a listener behaviour of the
  store (the rest of the program's state is the hook), \<open>useStore_cleanup\<close> the
  effect's cleanup. \<open>StoreContext\<close>, \<open>StoreProvider\<close> and \<open>useContext\<close>
  model how the hook finds its store, and \<open>useStore_mount\<close> the first render with
  its \<^verbatim>\<open>TypeError\<close> when no provider is above it. The lemmas show that a subscribed hook catches up with the store at
  every dispatch, that cleanup stops the updates, and that a dispatch between the first
  render and the effect is never seen.
\<close>

record ('s, 'l) hook =
  hook_state :: 's
  hook_sub :: "'l option"
  hook_mounted :: bool

definition useStore_init :: "('s, 'a, 'l) store \<Rightarrow> ('s, 'l) hook" where
  "useStore_init st = \<lparr>hook_state = getState st, hook_sub = None, hook_mounted = True\<rparr>"

definition useStore_value :: "('s, 'l) hook \<Rightarrow> 's" where
  "useStore_value h = hook_state h"

definition hook_listener :: "('s, 'a, 'l, ('s, 'l) hook) listener_beh" where
  "hook_listener l s h = (if hook_mounted h then h\<lparr>hook_state := s\<rparr> else h, [])"

definition useStore_effect ::
  "'l \<Rightarrow> ('s, 'a, 'l, ('s, 'l) hook) config \<Rightarrow> ('s, 'a, 'l, ('s, 'l) hook) config" where
  "useStore_effect l c = (subscribe l (fst c), (snd c)\<lparr>hook_sub := Some l\<rparr>)"

definition useStore_cleanup ::
  "('s, 'a, 'l, ('s, 'l) hook) config \<Rightarrow> ('s, 'a, 'l, ('s, 'l) hook) config" where
  "useStore_cleanup c =
     (case hook_sub (snd c) of
        None \<Rightarrow> c
      | Some l \<Rightarrow> (unsubscribe l (fst c), (snd c)\<lparr>hook_sub := None\<rparr>))"

subsection \<open>The store context\<close>

text \<open>
  \<^verbatim>\<open>StoreContext\<close> is created with the default value \<^verbatim>\<open>null\<close> (line 45);
  \<^verbatim>\<open>StoreProvider\<close> (lines 68--74) renders a \<^verbatim>\<open>StoreContext.Provider\<close> whose
  value is its \<^verbatim>\<open>store\<close> prop. \<^verbatim>\<open>useContext\<close> (line 48) reads the value of the
  nearest enclosing provider, or the default when there is none; the providers that
  enclose a component are listed innermost first. \<open>useStore_mount\<close> is the first
  render of \<^verbatim>\<open>useStore\<close> (lines 48--49): it calls \<^verbatim>\<open>store.getState()\<close> on the
  value read, which throws a \<^verbatim>\<open>TypeError\<close> when that value is \<^verbatim>\<open>null\<close>.
\<close>

definition StoreContext :: "('s, 'a, 'l) store option" where
  "StoreContext = None"

definition StoreProvider :: "('s, 'a, 'l) store \<Rightarrow> ('s, 'a, 'l) store option" where
  "StoreProvider st = Some st"

definition useContext :: "'v \<Rightarrow> 'v list \<Rightarrow> 'v" where
  "useContext dflt providers = (case providers of [] \<Rightarrow> dflt | v # _ \<Rightarrow> v)"

definition null_getState :: js_error where
  "null_getState = TypeError ''Cannot read properties of null (reading getState)''"

definition useStore_mount :: "('s, 'a, 'l) store option \<Rightarrow> js_error + ('s, 'l) hook" where
  "useStore_mount ctx =
     (case ctx of
        None \<Rightarrow> Inl null_getState
      | Some st \<Rightarrow> Inr (useStore_init st))"

subsection \<open>A dispatch seen by the hook\<close>

lemma useStore_mount_provided [simp]:
  "useStore_mount (useContext StoreContext (StoreProvider st # ps)) = Inr (useStore_init st)"
  by (simp add: useStore_mount_def useContext_def StoreProvider_def)

lemma hook_listener_quiet [simp]: "quiet hook_listener"
  by (simp add: quiet_def hook_listener_def)

lemma notify_all_hook:
  "notify_all hook_listener ls (st, h) =
     (st, if ls \<noteq> [] \<and> hook_mounted h then h\<lparr>hook_state := state st\<rparr> else h)"
  by (induction ls arbitrary: h) (auto simp: hook_listener_def getState_def)

lemma dispatch_hook:
  "dispatch hook_listener a (st, h) =
     Some (Returned (reduce_state a st,
           if listeners st \<noteq> [] \<and> hook_mounted h then h\<lparr>hook_state := reduce st (state st) a\<rparr> else h))"
  by (simp add: dispatch_quiet notify_all_hook reduce_state_def)

lemma reduce_state_fields [simp]:
  "listeners (reduce_state a st) = listeners st"
  "state (reduce_state a st) = reduce st (state st) a"
  "reduce (reduce_state a st) = reduce st"
  by (simp_all add: reduce_state_def)

subsection \<open>Properties of the hook\<close>

text \<open>
  C6. Once the effect has subscribed the hook's listener, every dispatch returns and
  leaves the component's state equal to the store's new state, still subscribed.
\<close>

theorem hook_catches_up:
  assumes "hook_sub h = Some l" and "l \<in> set (listeners st)" and "hook_mounted h"
  shows "\<exists>h'. dispatch hook_listener a (st, h) = Some (Returned (reduce_state a st, h'))
           \<and> useStore_value h' = reduce st (state st) a \<and> hook_sub h' = Some l"
  using assms by (auto simp: dispatch_hook useStore_value_def)

theorem hook_catches_up_witness:
  "hook_sub \<lparr>hook_state = (3::int), hook_sub = Some (0::nat), hook_mounted = True\<rparr> = Some 0
   \<and> (0::nat) \<in> set (listeners \<lparr>reduce = (+), state = (3::int), listeners = [0::nat]\<rparr>)
   \<and> hook_mounted \<lparr>hook_state = (3::int), hook_sub = Some (0::nat), hook_mounted = True\<rparr>
   \<and> (\<exists>h'. dispatch hook_listener (2::int)
            (\<lparr>reduce = (+), state = 3, listeners = [0::nat]\<rparr>, \<lparr>hook_state = 3, hook_sub = Some 0, hook_mounted = True\<rparr>)
          = Some (Returned (reduce_state 2 \<lparr>reduce = (+), state = 3, listeners = [0]\<rparr>, h'))
        \<and> useStore_value h' = 5 \<and> hook_sub h' = Some 0)"
proof -
  have "\<exists>h'. dispatch hook_listener (2::int)
            (\<lparr>reduce = (+), state = 3, listeners = [0::nat]\<rparr>, \<lparr>hook_state = 3, hook_sub = Some 0, hook_mounted = True\<rparr>)
          = Some (Returned (reduce_state 2 \<lparr>reduce = (+), state = 3, listeners = [0]\<rparr>, h'))
        \<and> useStore_value h' = 3 + 2 \<and> hook_sub h' = Some 0"
    using hook_catches_up [of "\<lparr>hook_state = (3::int), hook_sub = Some (0::nat), hook_mounted = True\<rparr>" 0
        "\<lparr>reduce = (+), state = (3::int), listeners = [0::nat]\<rparr>" 2] by simp
  then show ?thesis by simp
qed

text \<open>
  C11. The effect's cleanup unsubscribes the hook's listener: afterwards no listener is
  left, and a dispatch changes the store but not the component's state.
\<close>

theorem hook_cleanup_stops_updates:
  assumes "hook_sub h = Some l" and "listeners st = [l]"
  shows "listeners (fst (useStore_cleanup (st, h))) = []
    \<and> dispatch hook_listener a (useStore_cleanup (st, h))
        = Some (Returned (reduce_state a (unsubscribe l st), h\<lparr>hook_sub := None\<rparr>))"
  using assms by (simp add: useStore_cleanup_def dispatch_hook unsubscribe_def)

theorem hook_cleanup_stops_updates_witness:
  "hook_sub \<lparr>hook_state = (3::int), hook_sub = Some (0::nat), hook_mounted = True\<rparr> = Some 0
   \<and> listeners \<lparr>reduce = (+), state = (3::int), listeners = [0::nat]\<rparr> = [0]
   \<and> listeners (fst (useStore_cleanup (\<lparr>reduce = (+), state = (3::int), listeners = [0::nat]\<rparr>,
        \<lparr>hook_state = (3::int), hook_sub = Some (0::nat), hook_mounted = True\<rparr>))) = []
   \<and> dispatch hook_listener (2::int) (useStore_cleanup (\<lparr>reduce = (+), state = 3, listeners = [0::nat]\<rparr>,
        \<lparr>hook_state = 3, hook_sub = Some 0, hook_mounted = True\<rparr>))
     = Some (Returned (reduce_state 2 (unsubscribe 0 \<lparr>reduce = (+), state = 3, listeners = [0]\<rparr>),
             \<lparr>hook_state = 3, hook_sub = None, hook_mounted = True\<rparr>))"
  using hook_cleanup_stops_updates [of "\<lparr>hook_state = (3::int), hook_sub = Some (0::nat), hook_mounted = True\<rparr>" 0
      "\<lparr>reduce = (+), state = (3::int), listeners = [0::nat]\<rparr>" 2]
  by simp

text \<open>
  C18. The first render copies the store's state, but the listener is subscribed only
  when the effect runs after the commit: a dispatch in between updates the store and
  not the hook, and after the effect the component still holds the old state (it
  catches up only at the next dispatch).
\<close>

theorem hook_misses_dispatch_before_effect:
  assumes "listeners st = []"
  shows "\<exists>st' h'. dispatch hook_listener a (st, useStore_init st) = Some (Returned (st', h'))
           \<and> state st' = reduce st (state st) a
           \<and> useStore_value (snd (useStore_effect l (st', h'))) = state st
           \<and> listeners (fst (useStore_effect l (st', h'))) = [l]"
  using assms
  by (simp add: dispatch_hook useStore_effect_def useStore_init_def useStore_value_def
      getState_def subscribe_def)

theorem hook_misses_dispatch_before_effect_witness:
  "listeners \<lparr>reduce = (+), state = (0::int), listeners = [] :: nat list\<rparr> = []
   \<and> (\<exists>st' h'. dispatch hook_listener (1::int)
          (\<lparr>reduce = (+), state = 0, listeners = []\<rparr>, useStore_init \<lparr>reduce = (+), state = 0, listeners = []\<rparr>)
        = Some (Returned (st', h'))
      \<and> state st' = 1
      \<and> useStore_value (snd (useStore_effect (0::nat) (st', h'))) = 0
      \<and> listeners (fst (useStore_effect 0 (st', h'))) = [0])"
proof -
  have h: "listeners \<lparr>reduce = (+), state = (0::int), listeners = [] :: nat list\<rparr> = []" by simp
  show ?thesis
    using hook_misses_dispatch_before_effect [OF h, of 1 0] h by simp
qed

end
