(* ===== verification/App.thy ===== *)
theory App
  imports Reducer Hook
begin

text \<open>
  The application wired together (\<^verbatim>\<open>src/src/App.js\<close>, lines 64--92): one store
  built by \<^verbatim>\<open>createStore(reducer, initialState)\<close>, one \<^verbatim>\<open>Counter\<close> using
  \<^verbatim>\<open>useStore\<close>, whose buttons dispatch \<^verbatim>\<open>{ type: INCREMENT }\<close> and
  \<^verbatim>\<open>{ type: DECREMENT }\<close>. The record \<open>app\<close> holds the store, the Counter's hook
  state (\<open>None\<close> before its first render) and the supply of fresh listener
  identities (each effect run creates a new arrow function). \<open>app_step\<close> is one event:
  the first render, the effect after the commit, a click on either button, the unmount
  with its cleanup; \<open>None\<close> is an event that cannot happen in that state (or a
  render that throws, which unmounts the whole tree). The Counter is rendered inside
  \<^verbatim>\<open><StoreProvider store={store}>\<close> (lines 88--92), so its \<^verbatim>\<open>useContext\<close>
  sees one provider. A click whose dispatch throws leaves the store and the hook as the
  dispatch left them: the exception escapes the \<^verbatim>\<open>onClick\<close> handler, and React
  keeps the component. A click is
  handled only after the effect has run: React flushes pending passive effects before
  it handles a discrete input event. \<open>app_reach\<close> is the set of reachable states, and
  \<open>app_inv\<close> the invariant that relates the Counter's state, the store's listener
  array and the count's range.
\<close>

type_synonym lid = nat
type_synonym counter_store = "(counter_state, action, lid) store"
type_synonym counter_hook = "(counter_state, lid) hook"

record app =
  app_store :: counter_store
  counter :: "counter_hook option"
  next_lid :: lid

definition app_init :: app where
  "app_init = \<lparr>app_store = createStore reducer initialState, counter = None, next_lid = 0\<rparr>"

datatype app_event = Render | Effect | ClickIncrement | ClickDecrement | Unmount | Rerender

definition increment_click :: action where
  "increment_click = \<lparr>action_type = INCREMENT\<rparr>"

definition decrement_click :: action where
  "decrement_click = \<lparr>action_type = DECREMENT\<rparr>"

definition counter_click :: "action \<Rightarrow> app \<Rightarrow> app option" where
  "counter_click act s =
     (case counter s of
        None \<Rightarrow> None
      | Some h \<Rightarrow>
          if hook_mounted h \<and> hook_sub h \<noteq> None then
            (case dispatch hook_listener act (app_store s, h) of
               None \<Rightarrow> None
             | Some r \<Rightarrow>
                 (case completion_state r of
                    (st', h') \<Rightarrow> Some (s\<lparr>app_store := st', counter := Some h'\<rparr>)))
          else None)"

text \<open>
  \<open>Rerender\<close> is a render of \<^verbatim>\<open>App\<close> itself after the first (its parent
  rendering it again). The body runs again from line 3: line 66 builds a new store with
  the initial state, and \<^verbatim>\<open>StoreProvider\<close> and \<^verbatim>\<open>Counter\<close> are new
  functions, so React unmounts the old subtree (its cleanup unsubscribes from the old
  store, which nothing references afterwards) and mounts a new Counter under the new
  provider; its effect is still to run.
\<close>

fun app_step :: "app_event \<Rightarrow> app \<Rightarrow> app option" where
  "app_step Render s =
     (case counter s of
        None \<Rightarrow>
          (case useStore_mount (useContext StoreContext [StoreProvider (app_store s)]) of
             Inl e \<Rightarrow> None
           | Inr h \<Rightarrow> Some (s\<lparr>counter := Some h\<rparr>))
      | Some _ \<Rightarrow> None)"
| "app_step Effect s =
     (case counter s of
        None \<Rightarrow> None
      | Some h \<Rightarrow>
          if hook_mounted h \<and> hook_sub h = None then
            (case useStore_effect (next_lid s) (app_store s, h) of
               (st', h') \<Rightarrow> Some (s\<lparr>app_store := st', counter := Some h', next_lid := Suc (next_lid s)\<rparr>))
          else None)"
| "app_step ClickIncrement s = counter_click increment_click s"
| "app_step ClickDecrement s = counter_click decrement_click s"
| "app_step Unmount s =
     (case counter s of
        None \<Rightarrow> None
      | Some h \<Rightarrow>
          if hook_mounted h then
            (case useStore_cleanup (app_store s, h) of
               (st', h') \<Rightarrow> Some (s\<lparr>app_store := st', counter := Some (h'\<lparr>hook_mounted := False\<rparr>)\<rparr>))
          else None)"
| "app_step Rerender s =
     (case counter s of
        None \<Rightarrow> None
      | Some h \<Rightarrow>
          if hook_mounted h then
            (let st = createStore reducer initialState in
             case useStore_mount (useContext StoreContext [StoreProvider st]) of
               Inl e \<Rightarrow> None
             | Inr h' \<Rightarrow> Some (s\<lparr>app_store := st, counter := Some h'\<rparr>))
          else None)"

fun app_run :: "app_event list \<Rightarrow> app \<Rightarrow> app option" where
  "app_run [] s = Some s"
| "app_run (e # es) s = (case app_step e s of None \<Rightarrow> None | Some s' \<Rightarrow> app_run es s')"

text \<open>What \<^verbatim>\<open><h1>{state.count}</h1>\<close> shows (line 81).\<close>

definition counter_display :: "app \<Rightarrow> int option" where
  "counter_display s = map_option (\<lambda>h. count (useStore_value h)) (counter s)"

inductive app_reach :: "app \<Rightarrow> bool" where
  init: "app_reach app_init"
| step: "app_reach s \<Longrightarrow> app_step e s = Some s' \<Longrightarrow> app_reach s'"

definition app_inv :: "app \<Rightarrow> bool" where
  "app_inv s \<longleftrightarrow>
     reduce (app_store s) = reducer \<and> safe_count (state (app_store s)) \<and>
     (case counter s of
        None \<Rightarrow> listeners (app_store s) = []
      | Some h \<Rightarrow>
          (hook_mounted h \<longrightarrow> hook_state h = state (app_store s)) \<and>
          listeners (app_store s) = (case hook_sub h of None \<Rightarrow> [] | Some l \<Rightarrow> [l]) \<and>
          (\<not> hook_mounted h \<longrightarrow> hook_sub h = None))"

subsection \<open>The invariant, event by event\<close>

lemma app_inv_init: "app_inv app_init"
  by (simp add: app_inv_def app_init_def createStore_def safe_count_def initialState_def)

lemma counter_click_result:
  assumes "app_inv s" and "counter s = Some h" and "hook_mounted h" and "hook_sub h \<noteq> None"
  shows "counter_click act s =
    Some (s\<lparr>app_store := reduce_state act (app_store s),
            counter := Some (h\<lparr>hook_state := reducer (state (app_store s)) act\<rparr>)\<rparr>)"
proof -
  from assms obtain l where "hook_sub h = Some l" by blast
  with assms have "listeners (app_store s) = [l]" and "reduce (app_store s) = reducer"
    by (auto simp: app_inv_def)
  with assms show ?thesis
    by (simp add: counter_click_def dispatch_hook)
qed

lemma counter_click_inv:
  assumes "app_inv s" and "counter_click act s = Some s'"
  shows "app_inv s'"
proof -
  from assms(2) obtain h where h: "counter s = Some h" "hook_mounted h" "hook_sub h \<noteq> None"
    by (auto simp: counter_click_def split: option.splits if_splits)
  with assms have s': "s' = s\<lparr>app_store := reduce_state act (app_store s),
      counter := Some (h\<lparr>hook_state := reducer (state (app_store s)) act\<rparr>)\<rparr>"
    using counter_click_result by fastforce
  from assms(1) have "\<bar>count (state (app_store s))\<bar> \<le> 2 ^ 53"
    by (simp add: app_inv_def safe_count_def)
  then have "safe_count (reducer (state (app_store s)) act)"
    unfolding safe_count_def by (rule reducer_step_bound)
  with assms(1) h s' show ?thesis
    by (auto simp: app_inv_def split: option.splits)
qed

lemma app_step_inv:
  assumes "app_inv s" and "app_step e s = Some s'"
  shows "app_inv s'"
proof (cases e)
  case Render
  with assms show ?thesis
    by (auto simp: app_inv_def useStore_init_def getState_def split: option.splits)
next
  case Effect
  with assms show ?thesis
    by (auto simp: app_inv_def useStore_effect_def subscribe_def split: option.splits if_splits)
next
  case ClickIncrement
  with assms show ?thesis by (simp add: counter_click_inv)
next
  case ClickDecrement
  with assms show ?thesis by (simp add: counter_click_inv)
next
  case Unmount
  with assms show ?thesis
    by (auto simp: app_inv_def useStore_cleanup_def unsubscribe_def split: option.splits if_splits)
next
  case Rerender
  with assms show ?thesis
    by (auto simp: app_inv_def createStore_def useStore_init_def getState_def safe_count_def
        initialState_def split: option.splits if_splits)
qed

lemma app_reach_inv: "app_reach s \<Longrightarrow> app_inv s"
proof (induction rule: app_reach.induct)
  case init
  show ?case by (rule app_inv_init)
next
  case (step s e s')
  then show ?case by (blast intro: app_step_inv)
qed

lemma app_run_reach: "app_reach s \<Longrightarrow> app_run es s = Some s' \<Longrightarrow> app_reach s'"
proof (induction es arbitrary: s)
  case Nil
  then show ?case by simp
next
  case (Cons e es)
  then show ?case by (auto split: option.splits intro: app_reach.step)
qed

lemma app_run_mounted:
  "app_run [Render, Effect] app_init = Some
     \<lparr>app_store = \<lparr>reduce = reducer, state = initialState, listeners = [0]\<rparr>,
      counter = Some \<lparr>hook_state = initialState, hook_sub = Some 0, hook_mounted = True\<rparr>,
      next_lid = 1\<rparr>"
  by (simp add: app_init_def createStore_def useStore_init_def useStore_effect_def getState_def
      subscribe_def)

lemma app_reach_mounted:
  "app_reach \<lparr>app_store = \<lparr>reduce = reducer, state = initialState, listeners = [0]\<rparr>,
      counter = Some \<lparr>hook_state = initialState, hook_sub = Some 0, hook_mounted = True\<rparr>,
      next_lid = 1\<rparr>"
  using app_run_reach [OF app_reach.init app_run_mounted] .

lemma app_run_append:
  "app_run (xs @ ys) s = (case app_run xs s of None \<Rightarrow> None | Some s' \<Rightarrow> app_run ys s')"
  by (induction xs arbitrary: s) (auto split: option.split)

lemma app_click_step:
  assumes "app_reach s" and "counter s = Some h" and "hook_mounted h" and "hook_sub h \<noteq> None"
    and "e \<in> {ClickIncrement, ClickDecrement}" and "\<bar>count (state (app_store s))\<bar> < 2 ^ 53"
  shows "\<exists>h'. app_step e s = Some (s\<lparr>app_store := reduce_state (if e = ClickIncrement then increment_click else decrement_click) (app_store s), counter := Some h'\<rparr>)
     \<and> hook_mounted h' \<and> hook_sub h' = hook_sub h
     \<and> count (state (app_store s)) + (if e = ClickIncrement then 1 else - 1)
         = count (reducer (state (app_store s)) (if e = ClickIncrement then increment_click else decrement_click))"
proof -
  let ?act = "if e = ClickIncrement then increment_click else decrement_click"
  have inv: "app_inv s" using assms(1) by (rule app_reach_inv)
  have "app_step e s = counter_click ?act s" using assms(5) by auto
  also have "\<dots> = Some (s\<lparr>app_store := reduce_state ?act (app_store s),
      counter := Some (h\<lparr>hook_state := reducer (state (app_store s)) ?act\<rparr>)\<rparr>)"
    by (rule counter_click_result [OF inv assms(2-4)])
  finally have step: "app_step e s = \<dots>" .
  have "count (state (app_store s)) + (if e = ClickIncrement then 1 else - 1)
      = count (reducer (state (app_store s)) ?act)"
    using assms(5,6) by (auto simp: reducer_exact counter_spec_def increment_click_def decrement_click_def)
  with step assms(3) show ?thesis by auto
qed

lemma app_run_clicks:
  assumes "app_reach s" and "counter s = Some h" and "hook_mounted h" and "hook_sub h \<noteq> None"
    and "set cs \<subseteq> {ClickIncrement, ClickDecrement}"
    and "\<bar>count (state (app_store s))\<bar> + int (length cs) \<le> 2 ^ 53"
  shows "\<exists>s' h'. app_run cs s = Some s' \<and> app_reach s' \<and> counter s' = Some h' \<and> hook_mounted h'
    \<and> hook_sub h' = hook_sub h
    \<and> count (state (app_store s')) = count (state (app_store s))
         + int (count_list cs ClickIncrement) - int (count_list cs ClickDecrement)"
  using assms
proof (induction cs arbitrary: s h)
  case Nil
  then show ?case by simp
next
  case (Cons e cs)
  have e: "e \<in> {ClickIncrement, ClickDecrement}" and cs: "set cs \<subseteq> {ClickIncrement, ClickDecrement}"
    using Cons.prems(5) by auto
  have small: "\<bar>count (state (app_store s))\<bar> < 2 ^ 53" using Cons.prems(6) by simp
  obtain h1 where step: "app_step e s = Some (s\<lparr>app_store := reduce_state (if e = ClickIncrement then increment_click else decrement_click) (app_store s), counter := Some h1\<rparr>)"
    and h1: "hook_mounted h1" "hook_sub h1 = hook_sub h"
    and c1: "count (state (app_store s)) + (if e = ClickIncrement then 1 else - 1)
         = count (reducer (state (app_store s)) (if e = ClickIncrement then increment_click else decrement_click))"
    using app_click_step [OF Cons.prems(1-4) e small] by blast
  let ?s1 = "s\<lparr>app_store := reduce_state (if e = ClickIncrement then increment_click else decrement_click) (app_store s), counter := Some h1\<rparr>"
  have reach1: "app_reach ?s1" using Cons.prems(1) step by (rule app_reach.step)
  have r: "reduce (app_store s) = reducer" using app_reach_inv [OF Cons.prems(1)] by (simp add: app_inv_def)
  have cnt1: "count (state (app_store ?s1)) = count (state (app_store s)) + (if e = ClickIncrement then 1 else - 1)"
    using c1 r by (simp add: reduce_state_def)
  have bound1: "\<bar>count (state (app_store ?s1))\<bar> + int (length cs) \<le> 2 ^ 53"
    using Cons.prems(6) cnt1 by auto
  obtain s' h' where IH: "app_run cs ?s1 = Some s'" "app_reach s'" "counter s' = Some h'" "hook_mounted h'"
      "hook_sub h' = hook_sub h1"
      "count (state (app_store s')) = count (state (app_store ?s1))
         + int (count_list cs ClickIncrement) - int (count_list cs ClickDecrement)"
    using Cons.IH [OF reach1 _ h1(1) _ cs bound1] h1 Cons.prems(4) by fastforce
  show ?case
    using IH step cnt1 e h1 by auto
qed

lemma app_inv_display:
  "app_inv s \<Longrightarrow> counter s = Some h \<Longrightarrow> hook_mounted h \<Longrightarrow> useStore_value h = getState (app_store s)"
  by (simp add: app_inv_def useStore_value_def getState_def)

subsection \<open>Properties of the application\<close>

text \<open>
  C2. In every reachable state of the application, a mounted Counter displays the
  store's current state: the hook's copy equals \<^verbatim>\<open>store.getState()\<close>.
\<close>

theorem app_display_in_sync:
  assumes "app_reach s" and "counter s = Some h" and "hook_mounted h"
  shows "useStore_value h = getState (app_store s)"
proof -
  from assms(1) have "app_inv s" by (rule app_reach_inv)
  then show ?thesis using assms(2,3) by (rule app_inv_display)
qed

theorem app_display_in_sync_witness:
  "app_reach \<lparr>app_store = \<lparr>reduce = reducer, state = initialState, listeners = [0]\<rparr>,
      counter = Some \<lparr>hook_state = initialState, hook_sub = Some 0, hook_mounted = True\<rparr>, next_lid = 1\<rparr>
   \<and> hook_mounted \<lparr>hook_state = initialState, hook_sub = Some (0::nat), hook_mounted = True\<rparr>
   \<and> useStore_value \<lparr>hook_state = initialState, hook_sub = Some (0::nat), hook_mounted = True\<rparr>
       = getState \<lparr>reduce = reducer, state = initialState, listeners = [0::nat]\<rparr>"
  using app_display_in_sync [OF app_reach_mounted] app_reach_mounted by simp

text \<open>
  C14. In every reachable state the store's count lies in \<open>[-2^53, 2^53]\<close>, so the
  displayed number is always an exactly represented integer.
\<close>

theorem app_count_bounded:
  assumes "app_reach s"
  shows "\<bar>count (getState (app_store s))\<bar> \<le> 2 ^ 53"
proof -
  from assms have "app_inv s" by (rule app_reach_inv)
  then show ?thesis by (simp add: app_inv_def safe_count_def getState_def)
qed

theorem app_count_bounded_witness:
  "app_reach \<lparr>app_store = \<lparr>reduce = reducer, state = initialState, listeners = [0]\<rparr>,
      counter = Some \<lparr>hook_state = initialState, hook_sub = Some 0, hook_mounted = True\<rparr>, next_lid = 1\<rparr>
   \<and> \<bar>count (getState \<lparr>reduce = reducer, state = initialState, listeners = [0::nat]\<rparr>)\<bar> \<le> 2 ^ 53"
  using app_count_bounded [OF app_reach_mounted] app_reach_mounted by simp

text \<open>
  C10. A click on Increment in a reachable state with a mounted, subscribed Counter is
  always handled to completion: the dispatch returns, the store's count becomes the
  double sum \<open>count + 1\<close>, and the Counter displays it.
\<close>

theorem app_click_increment:
  assumes "app_reach s" and "counter s = Some h" and "hook_mounted h" and "hook_sub h \<noteq> None"
  shows "\<exists>s'. app_step ClickIncrement s = Some s'
     \<and> count (getState (app_store s')) = js_add (count (getState (app_store s))) 1
     \<and> counter_display s' = Some (count (getState (app_store s')))"
proof -
  from assms(1) have inv: "app_inv s" by (rule app_reach_inv)
  have "app_step ClickIncrement s =
      Some (s\<lparr>app_store := reduce_state increment_click (app_store s),
              counter := Some (h\<lparr>hook_state := reducer (state (app_store s)) increment_click\<rparr>)\<rparr>)"
    using counter_click_result [OF inv assms(2-4)] by simp
  moreover have "reduce (app_store s) = reducer"
    using inv by (simp add: app_inv_def)
  ultimately show ?thesis
    by (simp add: getState_def counter_display_def useStore_value_def increment_click_def
        reducer_increment)
qed

theorem app_click_increment_witness:
  "app_reach \<lparr>app_store = \<lparr>reduce = reducer, state = initialState, listeners = [0]\<rparr>,
      counter = Some \<lparr>hook_state = initialState, hook_sub = Some 0, hook_mounted = True\<rparr>, next_lid = 1\<rparr>
   \<and> (\<exists>s'. app_step ClickIncrement \<lparr>app_store = \<lparr>reduce = reducer, state = initialState, listeners = [0]\<rparr>,
      counter = Some \<lparr>hook_state = initialState, hook_sub = Some 0, hook_mounted = True\<rparr>, next_lid = 1\<rparr> = Some s'
     \<and> count (getState (app_store s')) = 1 \<and> counter_display s' = Some 1)"
proof -
  have "\<exists>s'. app_step ClickIncrement \<lparr>app_store = \<lparr>reduce = reducer, state = initialState, listeners = [0]\<rparr>,
      counter = Some \<lparr>hook_state = initialState, hook_sub = Some 0, hook_mounted = True\<rparr>, next_lid = 1\<rparr> = Some s'
     \<and> count (getState (app_store s')) = js_add 0 1
     \<and> counter_display s' = Some (count (getState (app_store s')))"
    using app_click_increment [OF app_reach_mounted] by (simp add: getState_def initialState_def)
  moreover have "js_add 0 1 = 1" by (simp add: js_add_exact)
  ultimately show ?thesis using app_reach_mounted by auto
qed

text \<open>
  C12. After the Counter unmounts, its cleanup has removed its listener: in every
  reachable state with an unmounted Counter the store has no listener left.
\<close>

theorem app_unmount_releases_subscription:
  assumes "app_reach s" and "counter s = Some h" and "\<not> hook_mounted h"
  shows "listeners (app_store s) = [] \<and> hook_sub h = None"
proof -
  from assms(1) have "app_inv s" by (rule app_reach_inv)
  with assms(2,3) show ?thesis by (simp add: app_inv_def)
qed

theorem app_unmount_releases_subscription_witness:
  "app_reach \<lparr>app_store = \<lparr>reduce = reducer, state = initialState, listeners = []\<rparr>,
      counter = Some \<lparr>hook_state = initialState, hook_sub = None, hook_mounted = False\<rparr>, next_lid = 1\<rparr>
   \<and> \<not> hook_mounted \<lparr>hook_state = initialState, hook_sub = None :: nat option, hook_mounted = False\<rparr>
   \<and> listeners \<lparr>reduce = reducer, state = initialState, listeners = [] :: nat list\<rparr> = []
   \<and> hook_sub \<lparr>hook_state = initialState, hook_sub = None :: nat option, hook_mounted = False\<rparr> = None"
proof -
  have "app_step Unmount \<lparr>app_store = \<lparr>reduce = reducer, state = initialState, listeners = [0]\<rparr>,
      counter = Some \<lparr>hook_state = initialState, hook_sub = Some 0, hook_mounted = True\<rparr>, next_lid = 1\<rparr>
    = Some \<lparr>app_store = \<lparr>reduce = reducer, state = initialState, listeners = []\<rparr>,
      counter = Some \<lparr>hook_state = initialState, hook_sub = None, hook_mounted = False\<rparr>, next_lid = 1\<rparr>"
    by (simp add: useStore_cleanup_def unsubscribe_def)
  with app_reach_mounted have r: "app_reach \<lparr>app_store = \<lparr>reduce = reducer, state = initialState, listeners = []\<rparr>,
      counter = Some \<lparr>hook_state = initialState, hook_sub = None, hook_mounted = False\<rparr>, next_lid = 1\<rparr>"
    by (rule app_reach.step)
  show ?thesis using app_unmount_releases_subscription [OF r] r by simp
qed

text \<open>
  C24. The store lives only as long as one render of \<^verbatim>\<open>App\<close>: a re-render of
  \<^verbatim>\<open>App\<close> from any reachable state with a mounted Counter builds a new store and
  remounts the Counter, so the count shown and stored is back to 0 and no listener is
  subscribed until the new effect runs (the spec says the state is created once).
\<close>

theorem app_rerender_resets_count:
  assumes "app_reach s" and "counter s = Some h" and "hook_mounted h"
  shows "\<exists>s'. app_step Rerender s = Some s' \<and> app_reach s'
     \<and> counter_display s' = Some 0 \<and> count (getState (app_store s')) = 0
     \<and> listeners (app_store s') = []"
proof -
  let ?st = "createStore reducer initialState :: counter_store"
  let ?s' = "s\<lparr>app_store := ?st, counter := Some (useStore_init ?st)\<rparr>"
  have step: "app_step Rerender s = Some ?s'"
    using assms(2,3) by (simp add: Let_def)
  with assms(1) have "app_reach ?s'" by (rule app_reach.step)
  with step show ?thesis
    by (simp add: counter_display_def useStore_value_def useStore_init_def getState_def
        createStore_def initialState_def)
qed

theorem app_rerender_resets_count_witness:
  "app_reach \<lparr>app_store = \<lparr>reduce = reducer, state = \<lparr>count = 1\<rparr>, listeners = [0]\<rparr>,
      counter = Some \<lparr>hook_state = \<lparr>count = 1\<rparr>, hook_sub = Some 0, hook_mounted = True\<rparr>, next_lid = 1\<rparr>
   \<and> counter_display \<lparr>app_store = \<lparr>reduce = reducer, state = \<lparr>count = 1\<rparr>, listeners = [0]\<rparr>,
      counter = Some \<lparr>hook_state = \<lparr>count = 1\<rparr>, hook_sub = Some 0, hook_mounted = True\<rparr>, next_lid = 1\<rparr> = Some 1
   \<and> (\<exists>s'. app_step Rerender \<lparr>app_store = \<lparr>reduce = reducer, state = \<lparr>count = 1\<rparr>, listeners = [0]\<rparr>,
      counter = Some \<lparr>hook_state = \<lparr>count = 1\<rparr>, hook_sub = Some 0, hook_mounted = True\<rparr>, next_lid = 1\<rparr> = Some s'
        \<and> counter_display s' = Some 0)"
proof -
  have "app_step ClickIncrement \<lparr>app_store = \<lparr>reduce = reducer, state = initialState, listeners = [0]\<rparr>,
      counter = Some \<lparr>hook_state = initialState, hook_sub = Some 0, hook_mounted = True\<rparr>, next_lid = 1\<rparr>
    = Some \<lparr>app_store = \<lparr>reduce = reducer, state = \<lparr>count = 1\<rparr>, listeners = [0]\<rparr>,
      counter = Some \<lparr>hook_state = \<lparr>count = 1\<rparr>, hook_sub = Some 0, hook_mounted = True\<rparr>, next_lid = 1\<rparr>"
    by (simp add: counter_click_def increment_click_def dispatch_hook reducer_def js_add_exact
        initialState_def reduce_state_def)
  with app_reach_mounted have r: "app_reach \<lparr>app_store = \<lparr>reduce = reducer, state = \<lparr>count = 1\<rparr>, listeners = [0]\<rparr>,
      counter = Some \<lparr>hook_state = \<lparr>count = 1\<rparr>, hook_sub = Some 0, hook_mounted = True\<rparr>, next_lid = 1\<rparr>"
    by (rule app_reach.step)
  show ?thesis
    using app_rerender_resets_count [OF r, of "\<lparr>hook_state = \<lparr>count = 1\<rparr>, hook_sub = Some 0, hook_mounted = True\<rparr>"] r
    by (auto simp: counter_display_def useStore_value_def)
qed

text \<open>
  C27. No listener leaks: in every reachable state the store holds at most one
  listener, and a listener it holds is the one the mounted Counter's effect
  subscribed.
\<close>

theorem app_no_listener_leak:
  assumes "app_reach s"
  shows "length (listeners (app_store s)) \<le> 1
    \<and> (\<forall>l \<in> set (listeners (app_store s)).
          \<exists>h. counter s = Some h \<and> hook_mounted h \<and> hook_sub h = Some l)"
proof -
  from assms have inv: "app_inv s" by (rule app_reach_inv)
  show ?thesis
  proof (cases "counter s")
    case None
    with inv show ?thesis by (simp add: app_inv_def)
  next
    case (Some h)
    with inv show ?thesis
      by (cases "hook_sub h") (auto simp: app_inv_def)
  qed
qed

theorem app_no_listener_leak_witness:
  "app_reach \<lparr>app_store = \<lparr>reduce = reducer, state = initialState, listeners = [0]\<rparr>,
      counter = Some \<lparr>hook_state = initialState, hook_sub = Some 0, hook_mounted = True\<rparr>, next_lid = 1\<rparr>
   \<and> length (listeners \<lparr>reduce = reducer, state = initialState, listeners = [0::nat]\<rparr>) \<le> 1
   \<and> hook_sub \<lparr>hook_state = initialState, hook_sub = Some (0::nat), hook_mounted = True\<rparr> = Some 0"
  using app_no_listener_leak [OF app_reach_mounted] app_reach_mounted by simp

end
