(* ===== verification/NumberToString.thy ===== *)
theory NumberToString
  imports Prelude
begin

text \<open>
  How React writes \<^verbatim>\<open>{state.count}\<close> into the page (\<^verbatim>\<open>src/src/App.js\<close>,
  line 81): a number child becomes the text \<^verbatim>\<open>String(n)\<close>. For an integer of
  magnitude below \<open>10^21\<close> JavaScript's Number::toString gives its decimal digits,
  without leading zeros, after a minus sign when negative; \<open>decimal_string\<close> is that
  conversion. \<open>parse_decimal\<close> reads such a text back (what a reader of the page
  does); the round trip shows that the text determines the number.
\<close>

definition digit_char :: "nat \<Rightarrow> char" where
  "digit_char d = char_of (48 + d)"

fun nat_digits :: "nat \<Rightarrow> char list" where
  "nat_digits n = (if n < 10 then [digit_char n] else nat_digits (n div 10) @ [digit_char (n mod 10)])"

declare nat_digits.simps [simp del]

definition decimal_string :: "int \<Rightarrow> string" where
  "decimal_string n = (if n < 0 then CHR ''-'' # nat_digits (nat (- n)) else nat_digits (nat n))"

definition digit_val :: "char \<Rightarrow> nat option" where
  "digit_val c = (let k = (of_char c :: nat) in if 48 \<le> k \<and> k \<le> 57 then Some (k - 48) else None)"

fun parse_digits :: "nat \<Rightarrow> char list \<Rightarrow> nat option" where
  "parse_digits acc [] = Some acc"
| "parse_digits acc (c # cs) =
     (case digit_val c of None \<Rightarrow> None | Some d \<Rightarrow> parse_digits (10 * acc + d) cs)"

definition parse_nat :: "char list \<Rightarrow> nat option" where
  "parse_nat cs = (if cs = [] then None else parse_digits 0 cs)"

fun parse_decimal :: "string \<Rightarrow> int option" where
  "parse_decimal (c # cs) =
     (if c = CHR ''-'' then map_option (\<lambda>n. - int n) (parse_nat cs) else map_option int (parse_nat (c # cs)))"
| "parse_decimal [] = None"

lemma digit_val_digit_char [simp]: "d < 10 \<Longrightarrow> digit_val (digit_char d) = Some d"
  by (simp add: digit_val_def digit_char_def)

lemma parse_digits_append:
  "parse_digits acc (xs @ ys) = (case parse_digits acc xs of None \<Rightarrow> None | Some a \<Rightarrow> parse_digits a ys)"
  by (induction acc xs rule: parse_digits.induct) (simp_all split: option.split)

lemma nat_digits_ne [simp]: "nat_digits n \<noteq> []"
  by (subst nat_digits.simps) simp

lemma digit_char_not_minus: "d < 10 \<Longrightarrow> digit_char d \<noteq> CHR ''-''"
proof
  assume "d < 10" and "digit_char d = CHR ''-''"
  then have "(of_char (digit_char d) :: nat) = of_char (CHR ''-'')" by simp
  with \<open>d < 10\<close> show False by (simp add: digit_char_def)
qed

lemma nat_digits_small: "n < 10 \<Longrightarrow> nat_digits n = [digit_char n]"
  by (subst nat_digits.simps) simp

lemma hd_nat_digits: "hd (nat_digits n) \<noteq> CHR ''-''"
proof (induction n rule: nat_digits.induct)
  case (1 n)
  show ?case
  proof (cases "n < 10")
    case True
    then show ?thesis by (simp add: nat_digits_small digit_char_not_minus)
  next
    case False
    then have "nat_digits n = nat_digits (n div 10) @ [digit_char (n mod 10)]"
      by (subst nat_digits.simps) simp
    with "1.IH" False show ?thesis by simp
  qed
qed

lemma parse_digits_nat_digits:
  "parse_digits acc (nat_digits n) = Some (acc * 10 ^ length (nat_digits n) + n)"
proof (induction n arbitrary: acc rule: nat_digits.induct)
  case (1 n)
  show ?case
  proof (cases "n < 10")
    case True
    then show ?thesis by (simp add: nat_digits_small)
  next
    case False
    let ?k = "length (nat_digits (n div 10))"
    have "parse_digits acc (nat_digits n)
        = parse_digits (acc * 10 ^ ?k + n div 10) [digit_char (n mod 10)]"
      using False "1.IH" by (subst nat_digits.simps) (simp add: parse_digits_append)
    also have "\<dots> = Some (acc * 10 ^ Suc ?k + n)"
      by (simp add: algebra_simps)
    finally show ?thesis
      using False by (subst (2) nat_digits.simps) simp
  qed
qed

text \<open>
  Round trip: the text \<open>decimal_string\<close> writes for a number reads back as that
  number, so distinct counts give distinct headings.
\<close>

lemma decimal_string_roundtrip: "parse_decimal (decimal_string n) = Some n"
proof (cases "n < 0")
  case True
  then show ?thesis
    by (simp add: decimal_string_def parse_nat_def parse_digits_nat_digits)
next
  case False
  obtain c cs where cc: "nat_digits (nat n) = c # cs"
    by (metis list.exhaust nat_digits_ne)
  with hd_nat_digits [of "nat n"] have "c \<noteq> CHR ''-''" by simp
  with False cc show ?thesis
    using parse_digits_nat_digits [of 0 "nat n"]
    by (simp add: decimal_string_def parse_nat_def)
qed

end
