(* ===== verification/View.thy ===== *)
theory View
  imports App NumberToString
begin

text \<open>
  The JSX of \<^verbatim>\<open>src/src/App.js\<close> and what it puts on the page. \<open>relem\<close> is a
  React element: a text, a host element (tag, \<^verbatim>\<open>onClick\<close> handler, children), a
  \<^verbatim>\<open>StoreContext.Provider\<close> with its value, or \<^verbatim>\<open><Counter />\<close>. A click handler
  is the action its arrow function dispatches. \<open>Counter_render\<close> (lines 79--85),
  \<open>StoreProvider_render\<close> (lines 69--73) and \<open>App_render\<close> (lines 88--92) are the
  three JSX expressions; \<open>render_tree\<close> turns an element into host nodes
  \<open>vnode\<close> (a provider renders only its children, \<^verbatim>\<open><Counter />\<close> what the
  Counter renders), and \<open>app_view\<close> is the page in a state of the application.
  \<open>click_target\<close> finds the handler of the button with a given label, and
  \<open>app_click\<close> is a click on it: the handler's dispatch through the Counter.
\<close>

datatype relem =
    RText string
  | RHost string "action option" "relem list"
  | RProvider "counter_store option" "relem list"
  | RCounter

datatype vnode = VText string | VElem string "action option" "vnode list"

definition Counter_render :: "counter_state \<Rightarrow> relem" where
  "Counter_render cstate =
     RHost ''div'' None
       [RHost ''h1'' None [RText (decimal_string (count cstate))],
        RHost ''button'' (Some increment_click) [RText ''Increment''],
        RHost ''button'' (Some decrement_click) [RText ''Decrement'']]"

definition StoreProvider_render :: "counter_store \<Rightarrow> relem list \<Rightarrow> relem" where
  "StoreProvider_render st children = RProvider (StoreProvider st) children"

definition App_render :: "counter_store \<Rightarrow> relem" where
  "App_render st = StoreProvider_render st [RCounter]"

primrec render_tree :: "vnode list \<Rightarrow> relem \<Rightarrow> vnode list" where
  "render_tree cv (RText s) = [VText s]"
| "render_tree cv (RHost tag h cs) = [VElem tag h (concat (map (render_tree cv) cs))]"
| "render_tree cv (RProvider v cs) = concat (map (render_tree cv) cs)"
| "render_tree cv RCounter = cv"

definition app_view :: "app \<Rightarrow> vnode list" where
  "app_view s =
     (case counter s of
        None \<Rightarrow> []
      | Some h \<Rightarrow>
          if hook_mounted h
          then render_tree (render_tree [] (Counter_render (useStore_value h))) (App_render (app_store s))
          else [])"

primrec text_content :: "vnode \<Rightarrow> string" where
  "text_content (VText s) = s"
| "text_content (VElem tag h cs) = concat (map text_content cs)"

primrec buttons :: "vnode \<Rightarrow> (string \<times> action) list" where
  "buttons (VText s) = []"
| "buttons (VElem tag h cs) =
     (case h of
        Some a \<Rightarrow> if tag = ''button'' then [(concat (map text_content cs), a)] else []
      | None \<Rightarrow> []) @ concat (map buttons cs)"

definition click_target :: "string \<Rightarrow> vnode list \<Rightarrow> action option" where
  "click_target label vs = map_of (concat (map buttons vs)) label"

definition app_click :: "string \<Rightarrow> app \<Rightarrow> app option" where
  "app_click label s =
     (case click_target label (app_view s) of
        None \<Rightarrow> None
      | Some a \<Rightarrow> counter_click a s)"

subsection \<open>The page of a mounted Counter\<close>

definition counter_page :: "int \<Rightarrow> vnode list" where
  "counter_page n =
     [VElem ''div'' None
       [VElem ''h1'' None [VText (decimal_string n)],
        VElem ''button'' (Some increment_click) [VText ''Increment''],
        VElem ''button'' (Some decrement_click) [VText ''Decrement'']]]"

lemma app_view_mounted:
  "counter s = Some h \<Longrightarrow> hook_mounted h \<Longrightarrow> app_view s = counter_page (count (useStore_value h))"
  by (simp add: app_view_def App_render_def StoreProvider_render_def Counter_render_def counter_page_def)

lemma click_target_page:
  "click_target ''Increment'' (counter_page n) = Some increment_click"
  "click_target ''Decrement'' (counter_page n) = Some decrement_click"
  by (simp_all add: click_target_def counter_page_def)

text \<open>
  C25. In every reachable state with a mounted Counter the page is the Counter's
  markup, and its heading is the decimal text of the store's count (JavaScript's
  \<^verbatim>\<open>String(count)\<close>, since the count stays below \<open>10^21\<close>).
\<close>

theorem app_page_shows_count:
  assumes "app_reach s" and "counter s = Some h" and "hook_mounted h"
  shows "app_view s = counter_page (count (getState (app_store s)))"
proof -
  have "useStore_value h = getState (app_store s)"
    using app_reach_inv [OF assms(1)] assms(2,3) by (rule app_inv_display)
  with app_view_mounted [OF assms(2,3)] show ?thesis by simp
qed

theorem app_page_shows_count_witness:
  "app_reach \<lparr>app_store = \<lparr>reduce = reducer, state = initialState, listeners = [0]\<rparr>,
      counter = Some \<lparr>hook_state = initialState, hook_sub = Some 0, hook_mounted = True\<rparr>, next_lid = 1\<rparr>
   \<and> app_view \<lparr>app_store = \<lparr>reduce = reducer, state = initialState, listeners = [0]\<rparr>,
      counter = Some \<lparr>hook_state = initialState, hook_sub = Some 0, hook_mounted = True\<rparr>, next_lid = 1\<rparr>
     = [VElem ''div'' None
         [VElem ''h1'' None [VText ''0''],
          VElem ''button'' (Some increment_click) [VText ''Increment''],
          VElem ''button'' (Some decrement_click) [VText ''Decrement'']]]"
proof -
  have "decimal_string 0 = ''0''"
    by code_simp
  then show ?thesis
    using app_page_shows_count [OF app_reach_mounted, of "\<lparr>hook_state = initialState, hook_sub = Some 0, hook_mounted = True\<rparr>"]
      app_reach_mounted
    by (simp add: counter_page_def getState_def initialState_def)
qed

text \<open>
  C26. The page's buttons do what their labels say: in every reachable state with a
  mounted, subscribed Counter whose count is below \<open>2^53\<close> in magnitude, clicking
  the button labelled Increment on the page raises the store's count by one and the
  button labelled Decrement lowers it by one, and the page then shows the new count.
\<close>

theorem app_page_buttons_work:
  assumes "app_reach s" and "counter s = Some h" and "hook_mounted h" and "hook_sub h \<noteq> None"
    and "\<bar>count (getState (app_store s))\<bar> < 2 ^ 53"
  shows "(\<exists>s'. app_click ''Increment'' s = Some s'
            \<and> count (getState (app_store s')) = count (getState (app_store s)) + 1
            \<and> app_view s' = counter_page (count (getState (app_store s)) + 1))
       \<and> (\<exists>s'. app_click ''Decrement'' s = Some s'
            \<and> count (getState (app_store s')) = count (getState (app_store s)) - 1
            \<and> app_view s' = counter_page (count (getState (app_store s)) - 1))"
proof -
  have inv: "app_inv s" using assms(1) by (rule app_reach_inv)
  have r: "reduce (app_store s) = reducer" using inv by (simp add: app_inv_def)
  have small: "\<bar>count (state (app_store s))\<bar> < 2 ^ 53" using assms(5) by (simp add: getState_def)
  have click: "app_click lbl s = counter_click a s" if "click_target lbl (counter_page (count (useStore_value h))) = Some a" for lbl a
    using that by (simp add: app_click_def app_view_mounted [OF assms(2,3)])
  have cc: "counter_click a s = Some (s\<lparr>app_store := reduce_state a (app_store s),
      counter := Some (h\<lparr>hook_state := reducer (state (app_store s)) a\<rparr>)\<rparr>)" for a
    by (rule counter_click_result [OF inv assms(2-4)])
  have inc: "count (reducer (state (app_store s)) increment_click) = count (state (app_store s)) + 1"
    and dec: "count (reducer (state (app_store s)) decrement_click) = count (state (app_store s)) - 1"
    using small by (simp_all add: reducer_exact counter_spec_def increment_click_def decrement_click_def)
  show ?thesis
    using click [OF click_target_page(1)] click [OF click_target_page(2)] cc inc dec r assms(3)
    by (simp add: app_view_def App_render_def StoreProvider_render_def Counter_render_def counter_page_def
        getState_def reduce_state_def useStore_value_def)
qed

theorem app_page_buttons_work_witness:
  "app_reach \<lparr>app_store = \<lparr>reduce = reducer, state = initialState, listeners = [0]\<rparr>,
      counter = Some \<lparr>hook_state = initialState, hook_sub = Some 0, hook_mounted = True\<rparr>, next_lid = 1\<rparr>
   \<and> (\<exists>s'. app_click ''Increment'' \<lparr>app_store = \<lparr>reduce = reducer, state = initialState, listeners = [0]\<rparr>,
      counter = Some \<lparr>hook_state = initialState, hook_sub = Some 0, hook_mounted = True\<rparr>, next_lid = 1\<rparr> = Some s'
        \<and> count (getState (app_store s')) = 1)
   \<and> (\<exists>s'. app_click ''Decrement'' \<lparr>app_store = \<lparr>reduce = reducer, state = initialState, listeners = [0]\<rparr>,
      counter = Some \<lparr>hook_state = initialState, hook_sub = Some 0, hook_mounted = True\<rparr>, next_lid = 1\<rparr> = Some s'
        \<and> count (getState (app_store s')) = - 1)"
  using app_page_buttons_work [OF app_reach_mounted, of "\<lparr>hook_state = initialState, hook_sub = Some 0, hook_mounted = True\<rparr>"]
    app_reach_mounted
  by (auto simp: getState_def initialState_def)

end
