(* ===== verification/Spec2Isabelle.thy ===== *)
theory Spec2Isabelle
  imports View
begin

text \<open>
  Verification development of the counter store in \<^verbatim>\<open>src/src/App.js\<close>.

  \<^bold>\<open>The program.\<close> One React component \<^verbatim>\<open>App\<close> defines, inside its body, a
  reducer over \<^verbatim>\<open>{ count }\<close> with the action types \<^verbatim>\<open>INCREMENT\<close> and
  \<^verbatim>\<open>DECREMENT\<close> (lines 4--20); \<^verbatim>\<open>createStore\<close> (lines 22--43), a closure over
  the reducer, the current state and an array of listener functions, returning
  \<^verbatim>\<open>getState\<close>, \<^verbatim>\<open>dispatch\<close> and \<^verbatim>\<open>subscribe\<close>, whose result unsubscribes by
  filtering the listener out by reference; the hook \<^verbatim>\<open>useStore\<close> (lines 47--61),
  which copies the store's state into React state and subscribes a listener that
  copies it again on every notification; and the \<^verbatim>\<open>Counter\<close> widget whose buttons
  dispatch the two actions (lines 76--86). \<^verbatim>\<open>dispatch\<close> replaces the state with the
  reducer's result, then calls every listener of the array as it is when
  \<^verbatim>\<open>forEach\<close> starts.

  \<^bold>\<open>Theories.\<close>
  \<^item> \<open>Prelude\<close>: the reducer type, \<open>js_error\<close> and \<open>completion\<close> (a call
    returns or throws, leaving a state either way), the \<open>js_eval\<close> collection,
    lemmas on the identity filter that removes a listener.
  \<^item> \<open>JsNumber\<close>: JavaScript's \<^verbatim>\<open>+\<close> and \<^verbatim>\<open>-\<close> on integer-valued doubles,
    \<open>dbl_round\<close> (round to 53 significant bits, ties to even), \<open>js_add\<close>,
    \<open>js_sub\<close>, \<open>is_double\<close>, \<open>MAX_VALUE\<close>; exactness up to \<open>2^53\<close>, the
    lost increment beyond, idempotence of rounding (every sum stored is a double), and
    that rounding gives a nearest double (the IEEE contract), from which a double bound
    on an exact sum bounds the rounded sum and \<open>\<plusminus>1\<close> is absorbed beyond
    \<open>2^54\<close>.
  \<^item> \<open>Reducer\<close>: \<open>counter_state\<close>, \<open>action\<close>, \<open>initialState\<close>,
    \<open>INCREMENT\<close>, \<open>DECREMENT\<close>, \<open>reducer\<close>; the spec's unbounded counter
    \<open>counter_spec\<close>, and its refinement by the reducer inside the exact range.
  \<^item> \<open>Store\<close>: \<open>createStore\<close> with \<open>getState\<close>, \<open>subscribe\<close>,
    \<open>unsubscribe\<close> and \<open>dispatch\<close>. Listener calls are modelled by a behaviour
    function (what the listener does to the rest of the program and which store calls
    it makes), and \<open>dispatch\<close> by the frame machine \<open>dispatch_step\<close> iterated by
    the \<^theory_text>\<open>partial_function (option)\<close> \<open>run\<close>, so that a listener that
    dispatches re-enters \<open>dispatch\<close> exactly as the JavaScript call does and a
    dispatch that never returns is \<open>None\<close>. A listener may also throw
    (\<open>Throw\<close>): the exception unwinds every frame, as nothing in
    \<^verbatim>\<open>createStore\<close> catches, and \<open>dispatch\<close> completes with \<open>Threw\<close>.
    \<open>exec\<close> is the same machine with fuel; \<open>notify_all\<close> is the reference
    semantics of a pass whose listeners neither dispatch nor throw.

  \<^item> \<open>Hook\<close>: \<open>useStore\<close> for one component: the record \<open>hook\<close> (the
    \<^verbatim>\<open>useState\<close> value, the subscribed listener, whether mounted),
    \<open>useStore_init\<close> (first render), \<open>useStore_value\<close>, \<open>hook_listener\<close> (the
    arrow function passed to \<^verbatim>\<open>subscribe\<close>, as a listener behaviour whose world is
    the hook), \<open>useStore_effect\<close> and \<open>useStore_cleanup\<close>; the context
    \<open>StoreContext\<close> (default \<^verbatim>\<open>null\<close>, line 45), \<open>StoreProvider\<close>
    (lines 68--74), \<open>useContext\<close> (nearest provider, else the default) and
    \<open>useStore_mount\<close>, the first render, which throws a \<^verbatim>\<open>TypeError\<close> on
    \<^verbatim>\<open>null\<close>. This is the interface
    between the components: \<open>Store\<close> is stated for any behaviour and world, and
    \<open>Hook\<close> instantiates them.
  \<^item> \<open>App\<close>: the record \<open>app\<close> (the one store \<^verbatim>\<open>StoreProvider\<close> hands
    down, the Counter's hook, fresh listener identities), \<open>app_init\<close>, the events
    \<open>app_event\<close> and the step function \<open>app_step\<close> (render, effect, the two
    button handlers \<open>counter_click\<close>, unmount, and a re-render of \<^verbatim>\<open>App\<close>
    that rebuilds the store; the render goes through the one \<open>StoreProvider\<close> of
    line 89), \<open>counter_display\<close>, the
    reachable states \<open>app_reach\<close> and the invariant \<open>app_inv\<close>.
  \<^item> \<open>NumberToString\<close>: \<open>decimal_string\<close>, the text React writes for the
    number child \<^verbatim>\<open>{state.count}\<close> (JavaScript's \<^verbatim>\<open>String\<close> on an integer
    below \<open>10^21\<close>), and its reader \<open>parse_decimal\<close>.
  \<^item> \<open>View\<close>: the JSX as element trees \<open>relem\<close> (\<open>Counter_render\<close>,
    \<open>StoreProvider_render\<close>, \<open>App_render\<close>), their rendering
    \<open>render_tree\<close> to host nodes \<open>vnode\<close>, the page \<open>app_view\<close> of a state, and
    \<open>app_click\<close>, a click on a button of the page running its \<^verbatim>\<open>onClick\<close>.
  \<^item> this theory: the end-to-end scenario of the spec.

  \<^bold>\<open>What is proved.\<close> The claims C1--C27 are the theorems whose
  \<^theory_text>\<open>text\<close> block names them; the rest are lemmas they share.
  \<open>Reducer\<close>: each branch of the switch, the refinement of the unbounded counter
  inside the exact range, the range invariant, the frozen counter beyond \<open>2^54\<close>,
  and that no sequence of actions takes a finite count to \<^verbatim>\<open>Infinity\<close>.
  \<open>JsNumber\<close>: rounding meets round-to-nearest over the binary64 values, which are
  defined by their format (odd part below \<open>2^53\<close>) and shown, as a lemma, to be
  exactly the values rounding leaves unchanged. \<open>Store\<close>: a dispatch whose
  listeners do not dispatch equals the plain loop \<open>notify_all\<close> over the snapshot
  of the listener array (so it returns, and calls every listener registered at its
  start once, in order, with the new state, whatever they (un)subscribe meanwhile);
  unsubscribe stops notifications and is idempotent; duplicate registrations; a
  listener that always dispatches makes dispatch diverge, while one that spends a
  budget on each re-entrant dispatch lets it end (the lexicographic measure
  \<open>dispatch_work\<close> falls at every step of the machine); a nested dispatch runs to
  its end before the outer pass resumes, for any reducer and states; a listener that
  throws aborts the dispatch with its exception, after the state was replaced and
  before the later listeners are called. \<open>Hook\<close>: a subscribed hook catches up at
  every dispatch, the cleanup stops updates, a dispatch before the effect is missed.
  \<open>App\<close>: in every reachable state the display equals the store's state, the count
  stays in range, the listener is released at unmount, the store never holds more than
  the mounted Counter's one listener (no leak), and a click is always handled to
  completion; a re-render of \<^verbatim>\<open>App\<close> resets the count to 0. \<open>View\<close>: in
  every reachable state the page is the Counter's markup with the count's decimal text
  as heading, and the page's buttons labelled Increment and Decrement change the count
  by one in the labelled direction. This theory: the spec's end-to-end scenario for
  every sequence of clicks.

  \<^bold>\<open>Bounds and fuel.\<close> The count is a JavaScript number. Every claim that an
  action moves the count by exactly one carries the hypothesis that the count is inside
  \<open>[-2^53, 2^53]\<close>, where doubles are exact; \<open>2^53\<close> is the first integer whose
  successor is not a double. Values beyond the largest finite double
  \<open>MAX_VALUE\<close> (where JavaScript gives \<^verbatim>\<open>Infinity\<close>) are not represented,
  and need not be: from any finite double the count stays within
  \<open>max |start| 2^54\<close>, and in the application, starting at 0, within \<open>2^53\<close>.
  \<open>run\<close> needs no fuel (it is a \<^theory_text>\<open>partial_function (option)\<close>); \<open>exec\<close>
  takes fuel only to prove divergence (no amount of fuel suffices) and to evaluate
  concrete runs. That \<open>run\<close>
  returns is proved as such (\<open>\<exists>r. run beh k c = Some r\<close>) by well-founded
  induction on \<open>dispatch_work\<close>, not from fuel.

  \<^bold>\<open>Not modelled.\<close> React's reconciliation and scheduling (the model takes
  one event at a time, a click only after the effect has run, and the page as a
  function of the state rather than a DOM updated in place), the exponent notation
  \<^verbatim>\<open>String\<close> uses from \<open>10^21\<close> on (the count never gets there: it stays
  within \<open>2^53\<close> from 0), errors
  other than the two the program can raise (a listener's own exception, and the
  \<^verbatim>\<open>TypeError\<close> of a missing provider), an action that is not an object
  (\<^verbatim>\<open>action.type\<close> would throw; every action here is a record), action types that are not
  strings (they take the \<^verbatim>\<open>default\<close> branch like any unknown string), and the old
  store after a re-render of \<^verbatim>\<open>App\<close> (nothing references it, so the cleanup
  that unsubscribes from it is not observable).

  \<^bold>\<open>Plan for later work.\<close> React's development-mode double run of effects
  (subscribe, clean up, subscribe again), which depends on how the entry point outside
  \<^verbatim>\<open>src/src\<close> mounts \<^verbatim>\<open>App\<close>.
\<close>

section \<open>End to end\<close>

text \<open>
  C4. The scenario of the spec, for every sequence of clicks: after the Counter's first
  render and its effect, any sequence of clicks on Increment and Decrement (at most
  \<open>2^53\<close> of them) is handled to completion and leaves the store's count equal to
  the number of Increment clicks minus the number of Decrement clicks, with the display
  showing it; a dispatch of an action of any other type then returns and leaves the
  store's state and the Counter's state as they were.
\<close>

theorem end_to_end_counter:
  assumes "set cs \<subseteq> {ClickIncrement, ClickDecrement}" and "length cs \<le> 2 ^ 53"
    and "action_type u \<noteq> INCREMENT" and "action_type u \<noteq> DECREMENT"
  shows "\<exists>s h. app_run ([Render, Effect] @ cs) app_init = Some s \<and> counter s = Some h
    \<and> count (getState (app_store s)) = int (count_list cs ClickIncrement) - int (count_list cs ClickDecrement)
    \<and> counter_display s = Some (count (getState (app_store s)))
    \<and> (\<exists>st' h'. dispatch hook_listener u (app_store s, h) = Some (Returned (st', h'))
         \<and> getState st' = getState (app_store s) \<and> useStore_value h' = getState (app_store s))"
proof -
  let ?h0 = "\<lparr>hook_state = initialState, hook_sub = Some (0::nat), hook_mounted = True\<rparr>"
  let ?s0 = "\<lparr>app_store = \<lparr>reduce = reducer, state = initialState, listeners = [0]\<rparr>,
      counter = Some ?h0, next_lid = 1\<rparr>"
  have bound: "\<bar>count (state (app_store ?s0))\<bar> + int (length cs) \<le> 2 ^ 53"
    using assms(2) by (simp add: initialState_def)
  obtain s h where run: "app_run cs ?s0 = Some s" and reach: "app_reach s" and h: "counter s = Some h"
      "hook_mounted h"
    and cnt: "count (state (app_store s)) = int (count_list cs ClickIncrement) - int (count_list cs ClickDecrement)"
    using app_run_clicks [OF app_reach_mounted, of ?h0 cs] assms(1) bound
    by (auto simp: initialState_def)
  have inv: "app_inv s" using reach by (rule app_reach_inv)
  have v: "useStore_value h = getState (app_store s)" using inv h by (rule app_inv_display)
  have r: "reduce (app_store s) = reducer" using inv by (simp add: app_inv_def)
  have same: "reducer (state (app_store s)) u = state (app_store s)"
    using assms(3,4) by (rule reducer_other)
  have d: "dispatch hook_listener u (app_store s, h)
      = Some (Returned (reduce_state u (app_store s),
          if listeners (app_store s) \<noteq> [] \<and> hook_mounted h
          then h\<lparr>hook_state := state (app_store s)\<rparr> else h))"
    using dispatch_hook [of u "app_store s" h] r same by simp
  show ?thesis
    using app_run_append [of "[Render, Effect]" cs app_init] app_run_mounted run h cnt v d
    by (simp add: getState_def counter_display_def reduce_state_def r same useStore_value_def)
qed

theorem end_to_end_counter_witness:
  "set [ClickIncrement, ClickIncrement, ClickIncrement, ClickDecrement] \<subseteq> {ClickIncrement, ClickDecrement}
   \<and> length [ClickIncrement, ClickIncrement, ClickIncrement, ClickDecrement] \<le> 2 ^ 53
   \<and> action_type \<lparr>action_type = ''UNKNOWN''\<rparr> \<noteq> INCREMENT \<and> action_type \<lparr>action_type = ''UNKNOWN''\<rparr> \<noteq> DECREMENT
   \<and> (\<exists>s h. app_run [Render, Effect, ClickIncrement, ClickIncrement, ClickIncrement, ClickDecrement] app_init = Some s
        \<and> counter s = Some h \<and> count (getState (app_store s)) = 2 \<and> counter_display s = Some 2
        \<and> (\<exists>st' h'. dispatch hook_listener \<lparr>action_type = ''UNKNOWN''\<rparr> (app_store s, h) = Some (Returned (st', h'))
             \<and> count (getState st') = 2 \<and> count (useStore_value h') = 2))"
proof -
  have a: "set [ClickIncrement, ClickIncrement, ClickIncrement, ClickDecrement] \<subseteq> {ClickIncrement, ClickDecrement}"
    by simp
  have b: "length [ClickIncrement, ClickIncrement, ClickIncrement, ClickDecrement] \<le> 2 ^ 53" by simp
  have c: "action_type \<lparr>action_type = ''UNKNOWN''\<rparr> \<noteq> INCREMENT" by (simp add: INCREMENT_def)
  have d: "action_type \<lparr>action_type = ''UNKNOWN''\<rparr> \<noteq> DECREMENT" by (simp add: DECREMENT_def)
  show ?thesis
    using end_to_end_counter [OF a b c d] a b c d by auto
qed

end
